theory Spec2Isabelle
  imports Complex_Main "HOL-Library.Word" "HOL-Library.List_Lexorder" "HOL-Library.Monad_Syntax"
begin

section \<open>JavaScript values\<close>

text \<open>
  A JavaScript string is a sequence of 16-bit code units. The comparison that
  \<^verbatim>\<open>Array.prototype.sort\<close> uses by default and the equality \<^verbatim>\<open>===\<close> both work code unit
  by code unit, so a string is a list of 16-bit words under the lexicographic order.
  \<open>js\<close> embeds a literal.
\<close>

type_synonym code_unit = "16 word"
type_synonym jsstring = "code_unit list"

definition js :: "string \<Rightarrow> jsstring" where
  "js s = map (\<lambda>c. of_nat (of_char c)) s"

text \<open>
  The Number type and its primitive operations belong to the JavaScript runtime, not to
  \<^verbatim>\<open>pivot.ts\<close>. They are a parameter of the embedding: every general theorem below holds
  for whatever the runtime's double-precision operations are, rounding included.
\<close>

record 'n number_ops =
  num_of_nat :: "nat \<Rightarrow> 'n"  \<comment> \<open>the Number of a non-negative integer: the literal \<^verbatim>\<open>0\<close>, an array's \<^verbatim>\<open>length\<close>\<close>
  num_add :: "'n \<Rightarrow> 'n \<Rightarrow> 'n"  \<comment> \<open>\<^verbatim>\<open>x + y\<close>\<close>
  num_div :: "'n \<Rightarrow> 'n \<Rightarrow> 'n"  \<comment> \<open>\<^verbatim>\<open>x / y\<close>\<close>
  num_lt :: "'n \<Rightarrow> 'n \<Rightarrow> bool"  \<comment> \<open>\<^verbatim>\<open>x < y\<close> is true\<close>
  num_nan :: "'n"
  num_pos_inf :: "'n"
  num_neg_inf :: "'n"
  num_neg_zero :: "'n"
  num_to_string :: "'n \<Rightarrow> jsstring"  \<comment> \<open>\<^verbatim>\<open>Number::toString(x, 10)\<close>\<close>
  num_parse_float :: "jsstring \<Rightarrow> 'n"  \<comment> \<open>\<^verbatim>\<open>parseFloat\<close> on a string\<close>

text \<open>
  The values a record field can hold: the JSON scalars, and \<^verbatim>\<open>undefined\<close> for what a
  missing property reads as.
\<close>

datatype 'n jsval = Undefined | Null | Bool bool | Num 'n | Str jsstring

fun ToString :: "'n number_ops \<Rightarrow> 'n jsval \<Rightarrow> jsstring" where
  "ToString ops Undefined = js ''undefined''"
| "ToString ops Null = js ''null''"
| "ToString ops (Bool b) = (if b then js ''true'' else js ''false'')"
| "ToString ops (Num n) = num_to_string ops n"
| "ToString ops (Str s) = s"

definition ToBoolean :: "'n number_ops \<Rightarrow> 'n \<Rightarrow> bool" where
  \<comment> \<open>a Number is falsy exactly when it is \<^verbatim>\<open>+0\<close>, \<^verbatim>\<open>-0\<close> or \<^verbatim>\<open>NaN\<close>\<close>
  "ToBoolean ops n \<longleftrightarrow>
     n \<noteq> num_of_nat ops 0 \<and> n \<noteq> num_neg_zero ops \<and> n \<noteq> num_nan ops"

definition parseFloat :: "'n number_ops \<Rightarrow> 'n jsval \<Rightarrow> 'n" where
  \<comment> \<open>\<^verbatim>\<open>parseFloat(v)\<close> converts its argument to a string first\<close>
  "parseFloat ops v = num_parse_float ops (ToString ops v)"

text \<open>
  \<^verbatim>\<open>Array.prototype.join(sep)\<close>: the loop of the language standard. From the second
  element on the separator is appended first; an element that is \<^verbatim>\<open>undefined\<close> or
  \<^verbatim>\<open>null\<close> appends the empty string, any other element its \<open>ToString\<close>.
\<close>

definition join_step ::
  "'n number_ops \<Rightarrow> jsstring \<Rightarrow> jsstring \<Rightarrow> nat \<times> 'n jsval \<Rightarrow> jsstring" where
  "join_step ops sep R ke =
     (let R1 = (if 0 < fst ke then R @ sep else R);
          next = (case snd ke of Undefined \<Rightarrow> [] | Null \<Rightarrow> [] | e \<Rightarrow> ToString ops e)
      in R1 @ next)"

definition join :: "'n number_ops \<Rightarrow> 'n jsval list \<Rightarrow> jsstring \<Rightarrow> jsstring" where
  "join ops xs sep = foldl (join_step ops sep) [] (enumerate 0 xs)"

text \<open>
  \<^verbatim>\<open>Math.min(...values)\<close> and \<^verbatim>\<open>Math.max(...values)\<close>, after the language standard: the
  running result starts at an infinity, a \<^verbatim>\<open>NaN\<close> argument makes the result \<^verbatim>\<open>NaN\<close>, and
  \<^verbatim>\<open>-0\<close> counts as below \<^verbatim>\<open>+0\<close>. The standard puts no bound on the number of arguments
  of a call; the bound of a particular engine is not modelled.
\<close>

fun min_loop :: "'n number_ops \<Rightarrow> 'n \<Rightarrow> 'n list \<Rightarrow> 'n" where
  "min_loop ops lowest [] = lowest"
| "min_loop ops lowest (x # xs) =
     (if x = num_nan ops then num_nan ops
      else let l1 = (if x = num_neg_zero ops \<and> lowest = num_of_nat ops 0
                     then num_neg_zero ops else lowest);
               l2 = (if num_lt ops x l1 then x else l1)
           in min_loop ops l2 xs)"

definition Math_min :: "'n number_ops \<Rightarrow> 'n list \<Rightarrow> 'n" where
  "Math_min ops xs = min_loop ops (num_pos_inf ops) xs"

fun max_loop :: "'n number_ops \<Rightarrow> 'n \<Rightarrow> 'n list \<Rightarrow> 'n" where
  "max_loop ops highest [] = highest"
| "max_loop ops highest (x # xs) =
     (if x = num_nan ops then num_nan ops
      else let h1 = (if x = num_of_nat ops 0 \<and> highest = num_neg_zero ops
                     then num_of_nat ops 0 else highest);
               h2 = (if num_lt ops h1 x then x else h1)
           in max_loop ops h2 xs)"

definition Math_max :: "'n number_ops \<Rightarrow> 'n list \<Rightarrow> 'n" where
  "Math_max ops xs = max_loop ops (num_neg_inf ops) xs"

section \<open>The pivot engine (\<^verbatim>\<open>pivot.ts\<close>)\<close>

text \<open>
  \<^verbatim>\<open>PivotData\<close> is an object with string keys; reading a key that the object lacks
  gives \<^verbatim>\<open>undefined\<close>. The keys are taken to be the object's own properties.
\<close>

type_synonym 'n PivotData = "jsstring \<rightharpoonup> 'n jsval"

definition get_field :: "'n PivotData \<Rightarrow> jsstring \<Rightarrow> 'n jsval" where
  "get_field item field = (case item field of None \<Rightarrow> Undefined | Some v \<Rightarrow> v)"

record PivotConfig =
  rows :: "jsstring list"
  columns :: "jsstring list"
  values' :: "jsstring list"
  aggregation :: "jsstring option"  \<comment> \<open>optional; a string at run time\<close>

record 'n PivotResult =
  data :: "'n list list"
  rowHeaders :: "jsstring list"
  columnHeaders :: "jsstring list"

text \<open>
  A \<^verbatim>\<open>Set<string>\<close> keeps its members in insertion order and ignores a member it
  already has; \<^verbatim>\<open>Array.from\<close> reads them in that order. \<^verbatim>\<open>sort()\<close> with no comparator
  orders strings code unit by code unit, which is the order of \<open>jsstring\<close>; on
  distinct strings every sorting algorithm gives the list that \<open>sort\<close> gives.
\<close>

definition set_add :: "jsstring list \<Rightarrow> jsstring \<Rightarrow> jsstring list" where
  "set_add s v = (if v \<in> set s then s else s @ [v])"

definition getUniqueValues ::
  "'n number_ops \<Rightarrow> 'n PivotData list \<Rightarrow> jsstring list \<Rightarrow> jsstring list" where
  "getUniqueValues ops dat flds =
     (let uniqueValues =
            foldl (\<lambda>s item. set_add s (join ops (map (\<lambda>field. get_field item field) flds) (js '' - '')))
              [] dat
      in sort uniqueValues)"

definition matchesGroup ::
  "'n number_ops \<Rightarrow> 'n PivotData \<Rightarrow> jsstring list \<Rightarrow> jsstring \<Rightarrow> bool" where
  "matchesGroup ops item flds groupValue =
     (let itemValue = join ops (map (\<lambda>field. get_field item field) flds) (js '' - '')
      in itemValue = groupValue)"

definition aggregateValues ::
  "'n number_ops \<Rightarrow> 'n PivotData list \<Rightarrow> jsstring list \<Rightarrow> jsstring \<Rightarrow> 'n" where
  "aggregateValues ops dat valueFields agg =
     (if length dat = 0 then num_of_nat ops 0
      else
        let vals = concat (map (\<lambda>item.
                     map (\<lambda>field. let p = parseFloat ops (get_field item field)
                                   in if ToBoolean ops p then p else num_of_nat ops 0)
                       valueFields) dat)
        in if agg = js ''sum'' then foldl (num_add ops) (num_of_nat ops 0) vals
           else if agg = js ''count'' then num_of_nat ops (length vals)
           else if agg = js ''avg'' then
             num_div ops (foldl (num_add ops) (num_of_nat ops 0) vals) (num_of_nat ops (length vals))
           else if agg = js ''min'' then Math_min ops vals
           else if agg = js ''max'' then Math_max ops vals
           else foldl (num_add ops) (num_of_nat ops 0) vals)"

definition createPivotTable ::
  "'n number_ops \<Rightarrow> 'n PivotData list \<Rightarrow> PivotConfig \<Rightarrow> 'n PivotResult" where
  "createPivotTable ops dat config =
     (let agg = (case aggregation config of None \<Rightarrow> js ''sum'' | Some a \<Rightarrow> a)
      in if length dat = 0 then \<lparr>data = [], rowHeaders = [], columnHeaders = []\<rparr>
         else
           let rowHeaders = getUniqueValues ops dat (rows config);
               columnHeaders = getUniqueValues ops dat (columns config);
               pivotData =
                 map (\<lambda>i.
                   map (\<lambda>j.
                     let filteredData =
                           filter (\<lambda>item.
                             matchesGroup ops item (rows config) (rowHeaders ! i) \<and>
                             matchesGroup ops item (columns config) (columnHeaders ! j)) dat
                     in aggregateValues ops filteredData (values' config) agg)
                     [0..<length columnHeaders])
                   [0..<length rowHeaders]
           in \<lparr>data = pivotData, rowHeaders = rowHeaders, columnHeaders = columnHeaders\<rparr>)"

section \<open>A runtime to evaluate with\<close>

text \<open>
  To run the engine on concrete records the parameter needs a value. \<open>js_ops\<close> is a Number
  type with \<^verbatim>\<open>NaN\<close>, the two infinities, \<^verbatim>\<open>-0\<close> and the finite values as rationals
  (\<open>Fin 0\<close> is \<^verbatim>\<open>+0\<close>), computing without rounding. It agrees with IEEE 754 double
  precision wherever operands and results are representable and print without an
  exponent, as the small integers and halves of the concrete inputs below are. It is
  used for concrete evaluation only. The special cases follow the language
  standard: \<^verbatim>\<open>0 / 0\<close> and \<^verbatim>\<open>Infinity - Infinity\<close> are \<^verbatim>\<open>NaN\<close>, a string with no numeric
  prefix parses to \<^verbatim>\<open>NaN\<close>, and \<^verbatim>\<open>NaN\<close> compares below nothing.
\<close>

datatype jsnum = NaN | PosInf | NegInf | NegZero | Fin rat

fun is_neg :: "jsnum \<Rightarrow> bool" where
  "is_neg NegInf = True"
| "is_neg NegZero = True"
| "is_neg (Fin r) = (r < 0)"
| "is_neg _ = False"

fun fin_val :: "jsnum \<Rightarrow> rat" where
  "fin_val (Fin r) = r"
| "fin_val _ = 0"

definition is_zero :: "jsnum \<Rightarrow> bool" where
  "is_zero x \<longleftrightarrow> x = NegZero \<or> x = Fin 0"

definition is_inf :: "jsnum \<Rightarrow> bool" where
  "is_inf x \<longleftrightarrow> x = PosInf \<or> x = NegInf"

definition js_add :: "jsnum \<Rightarrow> jsnum \<Rightarrow> jsnum" where
  "js_add x y =
     (if x = NaN \<or> y = NaN then NaN
      else if is_inf x \<and> is_inf y then (if x = y then x else NaN)
      else if is_inf x then x
      else if is_inf y then y
      else if x = NegZero then y
      else if y = NegZero then x
      else Fin (fin_val x + fin_val y))"

definition js_div :: "jsnum \<Rightarrow> jsnum \<Rightarrow> jsnum" where
  "js_div x y =
     (if x = NaN \<or> y = NaN then NaN
      else if is_inf x then
        (if is_inf y then NaN else if is_neg x \<noteq> is_neg y then NegInf else PosInf)
      else if is_inf y then (if is_neg x \<noteq> is_neg y then NegZero else Fin 0)
      else if is_zero y then
        (if is_zero x then NaN else if is_neg x \<noteq> is_neg y then NegInf else PosInf)
      else if is_zero x then (if is_neg x \<noteq> is_neg y then NegZero else Fin 0)
      else Fin (fin_val x / fin_val y))"

definition js_lt :: "jsnum \<Rightarrow> jsnum \<Rightarrow> bool" where
  "js_lt x y \<longleftrightarrow>
     (if x = NaN \<or> y = NaN then False
      else if x = PosInf \<or> y = NegInf then False
      else if y = PosInf \<or> x = NegInf then True
      else fin_val x < fin_val y)"

fun digits_of :: "nat \<Rightarrow> jsstring" where
  "digits_of n =
     (if n < 10 then [of_nat (48 + n)] else digits_of (n div 10) @ [of_nat (48 + n mod 10)])"

fun frac_digits :: "nat \<Rightarrow> rat \<Rightarrow> jsstring" where
  "frac_digits 0 f = []"
| "frac_digits (Suc k) f =
     (if f = 0 then []
      else let d = nat \<lfloor>f * 10\<rfloor> in of_nat (48 + d) # frac_digits k (f * 10 - of_nat d))"

definition pos_to_string :: "rat \<Rightarrow> jsstring" where
  "pos_to_string r =
     (let i = nat \<lfloor>r\<rfloor>; f = r - of_nat i
      in digits_of i @ (if f = 0 then [] else js ''.'' @ frac_digits 20 f))"

fun js_to_string :: "jsnum \<Rightarrow> jsstring" where
  "js_to_string NaN = js ''NaN''"
| "js_to_string PosInf = js ''Infinity''"
| "js_to_string NegInf = js ''-Infinity''"
| "js_to_string NegZero = js ''0''"
| "js_to_string (Fin r) = (if r < 0 then js ''-'' @ pos_to_string (- r) else pos_to_string r)"

definition is_digit :: "code_unit \<Rightarrow> bool" where
  "is_digit c \<longleftrightarrow> 48 \<le> c \<and> c \<le> 57"

definition is_ws :: "code_unit \<Rightarrow> bool" where
  \<comment> \<open>white space and line terminators, as \<^verbatim>\<open>parseFloat\<close> skips them\<close>
  "is_ws c \<longleftrightarrow>
     c \<in> {0x9, 0xA, 0xB, 0xC, 0xD, 0x20, 0xA0, 0x1680, 0x2028, 0x2029, 0x202F, 0x205F,
          0x3000, 0xFEFF} \<or> (0x2000 \<le> c \<and> c \<le> 0x200A)"

definition digits_val :: "jsstring \<Rightarrow> nat" where
  "digits_val ds = foldl (\<lambda>a c. 10 * a + (unat c - 48)) 0 ds"

definition exponent_part :: "jsstring \<Rightarrow> int" where
  "exponent_part s =
     (case s of
        [] \<Rightarrow> 0
      | c # t \<Rightarrow>
          if c = 0x65 \<or> c = 0x45 then
            (let neg = (case t of [] \<Rightarrow> False | d # u \<Rightarrow> d = 0x2D);
                 t1 = (case t of [] \<Rightarrow> [] | d # u \<Rightarrow> if d = 0x2D \<or> d = 0x2B then u else t);
                 ds = takeWhile is_digit t1
             in if neg then - int (digits_val ds) else int (digits_val ds))
          else 0)"

definition parse_unsigned :: "jsstring \<Rightarrow> jsnum" where
  "parse_unsigned s =
     (if take 8 s = js ''Infinity'' then PosInf
      else
        let ip = takeWhile is_digit s;
            r1 = dropWhile is_digit s;
            dot = (case r1 of [] \<Rightarrow> False | c # t \<Rightarrow> c = 0x2E);
            fp = (if dot then takeWhile is_digit (tl r1) else []);
            r2 = (if dot then dropWhile is_digit (tl r1) else r1)
        in if ip = [] \<and> fp = [] then NaN
           else
             let m = of_nat (digits_val ip) + of_nat (digits_val fp) / 10 ^ length fp;
                 e = exponent_part r2
             in Fin (if 0 \<le> e then m * 10 ^ nat e else m / 10 ^ nat (- e)))"

definition js_negate :: "jsnum \<Rightarrow> jsnum" where
  "js_negate x =
     (case x of NaN \<Rightarrow> NaN | PosInf \<Rightarrow> NegInf | NegInf \<Rightarrow> PosInf | NegZero \<Rightarrow> Fin 0
      | Fin r \<Rightarrow> if r = 0 then NegZero else Fin (- r))"

definition js_parse_float :: "jsstring \<Rightarrow> jsnum" where
  "js_parse_float s =
     (let t = dropWhile is_ws s
      in case t of
           [] \<Rightarrow> NaN
         | c # u \<Rightarrow>
             if c = 0x2D then js_negate (parse_unsigned u)
             else if c = 0x2B then parse_unsigned u
             else parse_unsigned t)"

definition js_ops :: "jsnum number_ops" where
  "js_ops =
     \<lparr>num_of_nat = (\<lambda>n. Fin (of_nat n)), num_add = js_add, num_div = js_div, num_lt = js_lt,
      num_nan = NaN, num_pos_inf = PosInf, num_neg_inf = NegInf, num_neg_zero = NegZero,
      num_to_string = js_to_string, num_parse_float = js_parse_float\<rparr>"

section \<open>Notions the properties are stated with\<close>

text \<open>
  The group key of a record on an axis: the expression that \<open>getUniqueValues\<close> and
  \<open>matchesGroup\<close> both compute.
\<close>

definition group_key :: "'n number_ops \<Rightarrow> 'n PivotData \<Rightarrow> jsstring list \<Rightarrow> jsstring" where
  "group_key ops item flds = join ops (map (get_field item) flds) (js '' - '')"

definition effective_aggregation :: "PivotConfig \<Rightarrow> jsstring" where
  \<comment> \<open>the destructuring default \<^verbatim>\<open>aggregation = 'sum'\<close>\<close>
  "effective_aggregation config = (case aggregation config of None \<Rightarrow> js ''sum'' | Some a \<Rightarrow> a)"

text \<open>The records of one cell, in input order.\<close>

definition cell_records ::
  "'n number_ops \<Rightarrow> 'n PivotData list \<Rightarrow> PivotConfig \<Rightarrow> jsstring \<Rightarrow> jsstring \<Rightarrow> 'n PivotData list" where
  "cell_records ops dat config rk ck =
     filter (\<lambda>item. group_key ops item (rows config) = rk \<and> group_key ops item (columns config) = ck) dat"




text \<open>
  The five aggregation kinds, and the reduction the specification gives for each. The
  numeric coercion of a value is the number it parses to, and \<^verbatim>\<open>0\<close> when it does not
  parse; a parsed zero of either sign is the number \<^verbatim>\<open>0\<close> (the two zeros are equal as
  numbers, and the code keeps \<^verbatim>\<open>+0\<close>). The value list runs over the
  records in order and, within a record, over the value fields in order. A minimum of
  a list is a member that no member is below.
\<close>

datatype agg_kind = Sum | Count | Avg | Min | Max

fun kind_name :: "agg_kind \<Rightarrow> jsstring" where
  "kind_name Sum = js ''sum''"
| "kind_name Count = js ''count''"
| "kind_name Avg = js ''avg''"
| "kind_name Min = js ''min''"
| "kind_name Max = js ''max''"

definition configured_kind :: "PivotConfig \<Rightarrow> agg_kind \<Rightarrow> bool" where
  "configured_kind config k \<longleftrightarrow>
     (case aggregation config of None \<Rightarrow> k = Sum | Some a \<Rightarrow> a = kind_name k)"

definition coerce_number :: "'n number_ops \<Rightarrow> 'n jsval \<Rightarrow> 'n" where
  "coerce_number ops v =
     (let p = parseFloat ops v
      in if p = num_nan ops \<or> p = num_neg_zero ops then num_of_nat ops 0 else p)"

fun value_list :: "'n number_ops \<Rightarrow> 'n PivotData list \<Rightarrow> jsstring list \<Rightarrow> 'n list" where
  "value_list ops [] vf = []"
| "value_list ops (r # rs) vf = map (\<lambda>f. coerce_number ops (get_field r f)) vf @ value_list ops rs vf"

definition is_minimum :: "'n number_ops \<Rightarrow> 'n \<Rightarrow> 'n list \<Rightarrow> bool" where
  "is_minimum ops m vs \<longleftrightarrow> m \<in> set vs \<and> (\<forall>v \<in> set vs. \<not> num_lt ops v m)"

definition is_maximum :: "'n number_ops \<Rightarrow> 'n \<Rightarrow> 'n list \<Rightarrow> bool" where
  "is_maximum ops m vs \<longleftrightarrow> m \<in> set vs \<and> (\<forall>v \<in> set vs. \<not> num_lt ops m v)"

fun reduces_to :: "'n number_ops \<Rightarrow> agg_kind \<Rightarrow> 'n list \<Rightarrow> 'n \<Rightarrow> bool" where
  "reduces_to ops Sum vs r \<longleftrightarrow> r = foldl (num_add ops) (num_of_nat ops 0) vs"
| "reduces_to ops Count vs r \<longleftrightarrow> r = num_of_nat ops (length vs)"
| "reduces_to ops Avg vs r \<longleftrightarrow>
     r = num_div ops (foldl (num_add ops) (num_of_nat ops 0) vs) (num_of_nat ops (length vs))"
| "reduces_to ops Min vs r \<longleftrightarrow> is_minimum ops r vs"
| "reduces_to ops Max vs r \<longleftrightarrow> is_maximum ops r vs"

text \<open>
  What the minimum and maximum need of the runtime's Numbers: \<^verbatim>\<open>+0\<close> is neither \<^verbatim>\<open>NaN\<close>
  nor \<^verbatim>\<open>-0\<close>, \<^verbatim>\<open>-Infinity\<close> is not \<^verbatim>\<open>-0\<close>, \<^verbatim>\<open><\<close> is irreflexive and transitive, and every
  Number but \<^verbatim>\<open>NaN\<close> lies between the infinities. IEEE 754 doubles satisfy all of it.
\<close>

definition number_order :: "'n number_ops \<Rightarrow> bool" where
  "number_order ops \<longleftrightarrow>
     num_of_nat ops 0 \<noteq> num_nan ops \<and>
     num_of_nat ops 0 \<noteq> num_neg_zero ops \<and>
     num_neg_inf ops \<noteq> num_neg_zero ops \<and>
     (\<forall>x. \<not> num_lt ops x x) \<and>
     (\<forall>x y z. num_lt ops x y \<longrightarrow> num_lt ops y z \<longrightarrow> num_lt ops x z) \<and>
     (\<forall>x. x \<noteq> num_nan ops \<longrightarrow> x = num_pos_inf ops \<or> num_lt ops x (num_pos_inf ops)) \<and>
     (\<forall>x. x \<noteq> num_nan ops \<longrightarrow> x = num_neg_inf ops \<or> num_lt ops (num_neg_inf ops) x)"

definition plain_numbers :: "'n number_ops \<Rightarrow> 'n list \<Rightarrow> bool" where
  "plain_numbers ops vs \<longleftrightarrow>
     (\<forall>v \<in> set vs. v \<noteq> num_nan ops \<and> v \<noteq> num_neg_zero ops)"

text \<open>
  The records of the specification's first example, and its configuration with the
  aggregation left open.
\<close>

definition example_records :: "jsnum PivotData list" where
  "example_records =
     [[js ''s'' \<mapsto> Str (js ''A''), js ''o'' \<mapsto> Str (js ''X''), js ''b'' \<mapsto> Num (Fin 10)],
      [js ''s'' \<mapsto> Str (js ''A''), js ''o'' \<mapsto> Str (js ''Y''), js ''b'' \<mapsto> Num (Fin 20)],
      [js ''s'' \<mapsto> Str (js ''B''), js ''o'' \<mapsto> Str (js ''X''), js ''b'' \<mapsto> Num (Fin 5)]]"

definition example_config :: "jsstring option \<Rightarrow> PivotConfig" where
  "example_config a = \<lparr>rows = [js ''s''], columns = [js ''o''], values' = [js ''b''], aggregation = a\<rparr>"

section \<open>The engine on a store\<close>

text \<open>
  To say that a call leaves its arguments alone, the arrays and objects need addresses.
  A store is a list of objects and an address an index into it; creating an object
  appends it. A record is a flat object of scalars, as the specification has it; an
  array holds scalars and references; a \<^verbatim>\<open>Set\<close> of strings holds its members in insertion
  order; a plain object (the configuration, the result) holds scalars and references.
\<close>

datatype 'n hval = Prim "'n jsval" | Ref nat

datatype 'n hobj =
    Rec "'n PivotData"
  | Arr "'n hval list"
  | SetObj "jsstring list"
  | Obj "jsstring \<rightharpoonup> 'n hval"

type_synonym 'n heap = "'n hobj list"

definition alloc :: "'n heap \<Rightarrow> 'n hobj \<Rightarrow> nat \<times> 'n heap" where
  "alloc h ob = (length h, h @ [ob])"

definition deref :: "'n heap \<Rightarrow> nat \<Rightarrow> 'n hobj option" where
  "deref h a = (if a < length h then Some (h ! a) else None)"

definition rec_at :: "'n heap \<Rightarrow> nat \<Rightarrow> 'n PivotData option" where
  "rec_at h a = (case deref h a of Some (Rec m) \<Rightarrow> Some m | _ \<Rightarrow> None)"

definition arr_at :: "'n heap \<Rightarrow> nat \<Rightarrow> 'n hval list option" where
  "arr_at h a = (case deref h a of Some (Arr xs) \<Rightarrow> Some xs | _ \<Rightarrow> None)"

definition set_at :: "'n heap \<Rightarrow> nat \<Rightarrow> jsstring list option" where
  "set_at h a = (case deref h a of Some (SetObj s) \<Rightarrow> Some s | _ \<Rightarrow> None)"

definition obj_at :: "'n heap \<Rightarrow> nat \<Rightarrow> (jsstring \<rightharpoonup> 'n hval) option" where
  "obj_at h a = (case deref h a of Some (Obj m) \<Rightarrow> Some m | _ \<Rightarrow> None)"

definition the_ref :: "'n hval \<Rightarrow> nat option" where
  "the_ref v = (case v of Ref a \<Rightarrow> Some a | _ \<Rightarrow> None)"

definition the_str :: "'n hval \<Rightarrow> jsstring option" where
  "the_str v = (case v of Prim (Str s) \<Rightarrow> Some s | _ \<Rightarrow> None)"

definition the_num :: "'n hval \<Rightarrow> 'n option" where
  "the_num v = (case v of Prim (Num n) \<Rightarrow> Some n | _ \<Rightarrow> None)"

definition strs_at :: "'n heap \<Rightarrow> nat \<Rightarrow> jsstring list option" where
  "strs_at h a = do { xs \<leftarrow> arr_at h a; those (map the_str xs) }"

definition nums_at :: "'n heap \<Rightarrow> nat \<Rightarrow> 'n list option" where
  "nums_at h a = do { xs \<leftarrow> arr_at h a; those (map the_num xs) }"

definition str_index :: "'n heap \<Rightarrow> nat \<Rightarrow> nat \<Rightarrow> jsstring option" where
  "str_index h a i = do { xs \<leftarrow> strs_at h a; if i < length xs then Some (xs ! i) else None }"

definition get_prop :: "(jsstring \<rightharpoonup> 'n hval) \<Rightarrow> jsstring \<Rightarrow> 'n hval" where
  "get_prop ob k = (case ob k of None \<Rightarrow> Prim Undefined | Some v \<Rightarrow> v)"

text \<open>
  The functions of \<^verbatim>\<open>pivot.ts\<close> again, statement by statement, threading the store.
  \<open>None\<close> stands for what lies outside these values (a \<^verbatim>\<open>TypeError\<close>, an object where a
  scalar is expected). Every array the source creates is created here: the result of
  \<^verbatim>\<open>map\<close>, \<^verbatim>\<open>filter\<close>, \<^verbatim>\<open>flatMap\<close> and \<^verbatim>\<open>Array.from\<close>, the \<^verbatim>\<open>Set\<close>, the rows, the matrix and the
  result object. The store is written where the source writes: \<^verbatim>\<open>uniqueValues.add\<close>,
  \<^verbatim>\<open>sort\<close> (in place), \<^verbatim>\<open>row.push\<close> and \<^verbatim>\<open>pivotData.push\<close>. A callback loop runs over the
  elements the array has when the loop starts, and a loop bound is read when the loop
  starts. The aggregation is carried as the value it is, so that the \<^verbatim>\<open>switch\<close> compares
  it with the five strings.

  \<open>key_expr\<close> is the expression \<^verbatim>\<open>fields.map(field => item[field]).join(' - ')\<close>.
\<close>

definition key_expr :: "'n number_ops \<Rightarrow> 'n heap \<Rightarrow> nat \<Rightarrow> nat \<Rightarrow> (jsstring \<times> 'n heap) option" where
  "key_expr ops h item fa = do {
     m \<leftarrow> rec_at h item;
     flds \<leftarrow> strs_at h fa;
     let (t, h1) = alloc h (Arr (map (\<lambda>field. Prim (get_field m field)) flds));
     Some (join ops (map (\<lambda>field. get_field m field) flds) (js '' - ''), h1) }"

fun forEach_add ::
  "'n number_ops \<Rightarrow> 'n heap \<Rightarrow> nat \<Rightarrow> nat \<Rightarrow> 'n hval list \<Rightarrow> 'n heap option" where
  "forEach_add ops h s fa [] = Some h"
| "forEach_add ops h s fa (item # items) = do {
     r \<leftarrow> the_ref item;
     (v, h1) \<leftarrow> key_expr ops h r fa;
     members \<leftarrow> set_at h1 s;
     forEach_add ops (h1[s := SetObj (set_add members v)]) s fa items }"

definition getUniqueValues_h ::
  "'n number_ops \<Rightarrow> 'n heap \<Rightarrow> nat \<Rightarrow> nat \<Rightarrow> (nat \<times> 'n heap) option" where
  "getUniqueValues_h ops h da fa = do {
     let (s, h1) = alloc h (SetObj []);
     items \<leftarrow> arr_at h1 da;
     h2 \<leftarrow> forEach_add ops h1 s fa items;
     members \<leftarrow> set_at h2 s;
     let (a, h3) = alloc h2 (Arr (map (\<lambda>m. Prim (Str m)) members));
     xs \<leftarrow> strs_at h3 a;
     Some (a, h3[a := Arr (map (\<lambda>m. Prim (Str m)) (sort xs))]) }"

definition matchesGroup_h ::
  "'n number_ops \<Rightarrow> 'n heap \<Rightarrow> nat \<Rightarrow> nat \<Rightarrow> jsstring \<Rightarrow> (bool \<times> 'n heap) option" where
  "matchesGroup_h ops h item fa groupValue = do {
     (itemValue, h1) \<leftarrow> key_expr ops h item fa;
     Some (itemValue = groupValue, h1) }"

fun filter_h ::
  "'n number_ops \<Rightarrow> 'n heap \<Rightarrow> nat \<Rightarrow> nat \<Rightarrow> nat \<Rightarrow> nat \<Rightarrow> nat \<Rightarrow> nat \<Rightarrow> 'n hval list \<Rightarrow>
     ('n hval list \<times> 'n heap) option" where
  "filter_h ops h ra ca rha cha i j [] = Some ([], h)"
| "filter_h ops h ra ca rha cha i j (item # items) = do {
     r \<leftarrow> the_ref item;
     rk \<leftarrow> str_index h rha i;
     (b1, h1) \<leftarrow> matchesGroup_h ops h r ra rk;
     (b2, h2) \<leftarrow> (if b1 then do { ck \<leftarrow> str_index h1 cha j; matchesGroup_h ops h1 r ca ck }
                 else Some (False, h1));
     (kept, h3) \<leftarrow> filter_h ops h2 ra ca rha cha i j items;
     Some (if b2 then item # kept else kept, h3) }"

fun flatMap_h ::
  "'n number_ops \<Rightarrow> 'n heap \<Rightarrow> nat \<Rightarrow> 'n hval list \<Rightarrow> ('n list \<times> 'n heap) option" where
  "flatMap_h ops h va [] = Some ([], h)"
| "flatMap_h ops h va (item # items) = do {
     r \<leftarrow> the_ref item;
     m \<leftarrow> rec_at h r;
     valueFields \<leftarrow> strs_at h va;
     let inner = map (\<lambda>field. let p = parseFloat ops (get_field m field)
                              in if ToBoolean ops p then p else num_of_nat ops 0) valueFields;
     let (t, h1) = alloc h (Arr (map (\<lambda>n. Prim (Num n)) inner));
     (rest, h2) \<leftarrow> flatMap_h ops h1 va items;
     Some (inner @ rest, h2) }"

definition aggregateValues_h ::
  "'n number_ops \<Rightarrow> 'n heap \<Rightarrow> nat \<Rightarrow> nat \<Rightarrow> 'n hval \<Rightarrow> ('n \<times> 'n heap) option" where
  "aggregateValues_h ops h fd va agg = do {
     items \<leftarrow> arr_at h fd;
     if length items = 0 then Some (num_of_nat ops 0, h)
     else do {
       (flat, h1) \<leftarrow> flatMap_h ops h va items;
       let (vs, h2) = alloc h1 (Arr (map (\<lambda>n. Prim (Num n)) flat));
       vals \<leftarrow> nums_at h2 vs;
       Some (if agg = Prim (Str (js ''sum'')) then foldl (num_add ops) (num_of_nat ops 0) vals
             else if agg = Prim (Str (js ''count'')) then num_of_nat ops (length vals)
             else if agg = Prim (Str (js ''avg'')) then
               num_div ops (foldl (num_add ops) (num_of_nat ops 0) vals) (num_of_nat ops (length vals))
             else if agg = Prim (Str (js ''min'')) then Math_min ops vals
             else if agg = Prim (Str (js ''max'')) then Math_max ops vals
             else foldl (num_add ops) (num_of_nat ops 0) vals, h2) } }"

fun inner_loop ::
  "'n number_ops \<Rightarrow> 'n heap \<Rightarrow> nat \<Rightarrow> nat \<Rightarrow> nat \<Rightarrow> nat \<Rightarrow> 'n hval \<Rightarrow> nat \<Rightarrow> nat \<Rightarrow> nat \<Rightarrow> nat \<Rightarrow>
     nat list \<Rightarrow> 'n heap option" where
  "inner_loop ops h da ra ca va agg rha cha row i [] = Some h"
| "inner_loop ops h da ra ca va agg rha cha row i (j # rest) = do {
     items \<leftarrow> arr_at h da;
     (kept, h1) \<leftarrow> filter_h ops h ra ca rha cha i j items;
     let (filteredData, h2) = alloc h1 (Arr kept);
     (aggregatedValue, h3) \<leftarrow> aggregateValues_h ops h2 filteredData va agg;
     cells \<leftarrow> arr_at h3 row;
     inner_loop ops (h3[row := Arr (cells @ [Prim (Num aggregatedValue)])])
       da ra ca va agg rha cha row i rest }"

fun outer_loop ::
  "'n number_ops \<Rightarrow> 'n heap \<Rightarrow> nat \<Rightarrow> nat \<Rightarrow> nat \<Rightarrow> nat \<Rightarrow> 'n hval \<Rightarrow> nat \<Rightarrow> nat \<Rightarrow> nat \<Rightarrow>
     nat list \<Rightarrow> 'n heap option" where
  "outer_loop ops h da ra ca va agg rha cha pd [] = Some h"
| "outer_loop ops h da ra ca va agg rha cha pd (i # rest) = do {
     let (row, h1) = alloc h (Arr []);
     columnHeaders \<leftarrow> arr_at h1 cha;
     h2 \<leftarrow> inner_loop ops h1 da ra ca va agg rha cha row i [0..<length columnHeaders];
     pivotData \<leftarrow> arr_at h2 pd;
     outer_loop ops (h2[pd := Arr (pivotData @ [Ref row])]) da ra ca va agg rha cha pd rest }"

definition result_object :: "nat \<Rightarrow> nat \<Rightarrow> nat \<Rightarrow> 'n hobj" where
  "result_object d r c =
     Obj [js ''data'' \<mapsto> Ref d, js ''rowHeaders'' \<mapsto> Ref r, js ''columnHeaders'' \<mapsto> Ref c]"

definition createPivotTable_h ::
  "'n number_ops \<Rightarrow> 'n heap \<Rightarrow> nat \<Rightarrow> nat \<Rightarrow> (nat \<times> 'n heap) option" where
  "createPivotTable_h ops h da cfa = do {
     config \<leftarrow> obj_at h cfa;
     let rows = get_prop config (js ''rows'');
     let columns = get_prop config (js ''columns'');
     let values = get_prop config (js ''values'');
     let agg = (if get_prop config (js ''aggregation'') = Prim Undefined then Prim (Str (js ''sum''))
                else get_prop config (js ''aggregation''));
     items \<leftarrow> arr_at h da;
     if length items = 0 then
       (let (d, h1) = alloc h (Arr []);
            (r, h2) = alloc h1 (Arr []);
            (c, h3) = alloc h2 (Arr [])
        in Some (alloc h3 (result_object d r c)))
     else do {
       ra \<leftarrow> the_ref rows;
       ca \<leftarrow> the_ref columns;
       va \<leftarrow> the_ref values;
       (rha, h1) \<leftarrow> getUniqueValues_h ops h da ra;
       (cha, h2) \<leftarrow> getUniqueValues_h ops h1 da ca;
       let (pd, h3) = alloc h2 (Arr []);
       rowHeaders \<leftarrow> arr_at h3 rha;
       h4 \<leftarrow> outer_loop ops h3 da ra ca va agg rha cha pd [0..<length rowHeaders];
       Some (alloc h4 (result_object pd rha cha)) } }"

text \<open>
  Reading the arguments and the result back out of a store, as the values of the
  functional model; two stores hold deeply equal arguments when these readings agree.
  \<open>preserved h h'\<close> says that every object of \<open>h\<close> is in \<open>h'\<close> at its address, unchanged.
\<close>

definition read_records :: "'n heap \<Rightarrow> nat \<Rightarrow> 'n PivotData list option" where
  "read_records h da = do {
     items \<leftarrow> arr_at h da;
     those (map (\<lambda>v. Option.bind (the_ref v) (rec_at h)) items) }"

definition read_config :: "'n heap \<Rightarrow> nat \<Rightarrow> PivotConfig option" where
  "read_config h cfa = do {
     config \<leftarrow> obj_at h cfa;
     r \<leftarrow> Option.bind (Option.bind (config (js ''rows'')) the_ref) (strs_at h);
     c \<leftarrow> Option.bind (Option.bind (config (js ''columns'')) the_ref) (strs_at h);
     v \<leftarrow> Option.bind (Option.bind (config (js ''values'')) the_ref) (strs_at h);
     a \<leftarrow> (case config (js ''aggregation'') of
             None \<Rightarrow> Some None
           | Some (Prim Undefined) \<Rightarrow> Some None
           | Some (Prim (Str a)) \<Rightarrow> Some (Some a)
           | _ \<Rightarrow> None);
     Some \<lparr>rows = r, columns = c, values' = v, aggregation = a\<rparr> }"

definition read_rows :: "'n heap \<Rightarrow> 'n hval list \<Rightarrow> 'n list list option" where
  "read_rows h rowrefs = those (map (\<lambda>v. Option.bind (the_ref v) (nums_at h)) rowrefs)"

definition read_result :: "'n heap \<Rightarrow> nat \<Rightarrow> 'n PivotResult option" where
  "read_result h res = do {
     ob \<leftarrow> obj_at h res;
     rowrefs \<leftarrow> Option.bind (Option.bind (ob (js ''data'')) the_ref) (arr_at h);
     d \<leftarrow> read_rows h rowrefs;
     r \<leftarrow> Option.bind (Option.bind (ob (js ''rowHeaders'')) the_ref) (strs_at h);
     c \<leftarrow> Option.bind (Option.bind (ob (js ''columnHeaders'')) the_ref) (strs_at h);
     Some \<lparr>data = d, rowHeaders = r, columnHeaders = c\<rparr> }"

definition preserved :: "'n heap \<Rightarrow> 'n heap \<Rightarrow> bool" where
  "preserved h h' \<longleftrightarrow> take (length h) h' = h"

definition recs_at :: "'n heap \<Rightarrow> 'n hval list \<Rightarrow> 'n PivotData list \<Rightarrow> bool" where
  "recs_at h items recs \<longleftrightarrow> list_all2 (\<lambda>v m. Option.bind (the_ref v) (rec_at h) = Some m) items recs"

text \<open>
  The first example in a store: the three records, the array of them at address 3,
  the field arrays, and the configuration at address 7.
\<close>

definition example_heap :: "jsnum heap" where
  "example_heap =
     [Rec [js ''s'' \<mapsto> Str (js ''A''), js ''o'' \<mapsto> Str (js ''X''), js ''b'' \<mapsto> Num (Fin 10)],
      Rec [js ''s'' \<mapsto> Str (js ''A''), js ''o'' \<mapsto> Str (js ''Y''), js ''b'' \<mapsto> Num (Fin 20)],
      Rec [js ''s'' \<mapsto> Str (js ''B''), js ''o'' \<mapsto> Str (js ''X''), js ''b'' \<mapsto> Num (Fin 5)],
      Arr [Ref 0, Ref 1, Ref 2],
      Arr [Prim (Str (js ''s''))],
      Arr [Prim (Str (js ''o''))],
      Arr [Prim (Str (js ''b''))],
      Obj [js ''rows'' \<mapsto> Ref 4, js ''columns'' \<mapsto> Ref 5, js ''values'' \<mapsto> Ref 6,
           js ''aggregation'' \<mapsto> Prim (Str (js ''avg''))]]"

section \<open>What the engine computes\<close>

subsection \<open>Headers and cells\<close>

lemma matchesGroup_iff: "matchesGroup ops item flds g \<longleftrightarrow> group_key ops item flds = g"
  by (simp add: matchesGroup_def group_key_def)

lemma set_foldl_set_add:
  "set (foldl (\<lambda>s x. set_add s (f x)) s0 xs) = set s0 \<union> f ` set xs"
  by (induction xs arbitrary: s0) (auto simp: set_add_def)

lemma distinct_foldl_set_add:
  "distinct s0 \<Longrightarrow> distinct (foldl (\<lambda>s x. set_add s (f x)) s0 xs)"
  by (induction xs arbitrary: s0) (auto simp: set_add_def)

lemma getUniqueValues_set:
  "set (getUniqueValues ops dat flds) = (\<lambda>item. group_key ops item flds) ` set dat"
  by (simp add: getUniqueValues_def group_key_def set_foldl_set_add)

lemma getUniqueValues_distinct: "distinct (getUniqueValues ops dat flds)"
  by (simp add: getUniqueValues_def distinct_foldl_set_add)

lemma getUniqueValues_sorted: "sorted_wrt (<) (getUniqueValues ops dat flds)"
  by (simp add: strict_sorted_iff getUniqueValues_distinct) (simp add: getUniqueValues_def)

lemma rowHeaders_eq:
  "dat \<noteq> [] \<Longrightarrow> rowHeaders (createPivotTable ops dat config) = getUniqueValues ops dat (rows config)"
  by (simp add: createPivotTable_def Let_def)

lemma columnHeaders_eq:
  "dat \<noteq> [] \<Longrightarrow> columnHeaders (createPivotTable ops dat config) = getUniqueValues ops dat (columns config)"
  by (simp add: createPivotTable_def Let_def)

lemma headers_empty:
  "rowHeaders (createPivotTable ops [] config) = [] \<and> columnHeaders (createPivotTable ops [] config) = []
   \<and> data (createPivotTable ops [] config) = []"
  by (simp add: createPivotTable_def Let_def)

lemma index_loop_map: "map (\<lambda>i. f (xs ! i)) [0..<length xs] = map f xs"
  by (rule nth_equalityI) simp_all

lemma data_eq:
  "dat \<noteq> [] \<Longrightarrow> data (createPivotTable ops dat config) =
     map (\<lambda>rk. map (\<lambda>ck. aggregateValues ops (cell_records ops dat config rk ck) (values' config)
                           (effective_aggregation config))
                 (getUniqueValues ops dat (columns config)))
         (getUniqueValues ops dat (rows config))"
proof -
  let ?rh = "getUniqueValues ops dat (rows config)" and ?ch = "getUniqueValues ops dat (columns config)"
  let ?cell = "\<lambda>rk ck. aggregateValues ops (cell_records ops dat config rk ck) (values' config)
                           (effective_aggregation config)"
  assume "dat \<noteq> []"
  then have "data (createPivotTable ops dat config) =
      map (\<lambda>i. map (\<lambda>j. ?cell (?rh ! i) (?ch ! j)) [0..<length ?ch]) [0..<length ?rh]"
    by (simp add: createPivotTable_def Let_def matchesGroup_iff cell_records_def effective_aggregation_def)
  also have "\<dots> = map (\<lambda>i. map (?cell (?rh ! i)) ?ch) [0..<length ?rh]"
  proof -
    have "map (\<lambda>j. ?cell rk (?ch ! j)) [0..<length ?ch] = map (?cell rk) ?ch" for rk
      by (rule index_loop_map [of "?cell rk" ?ch])
    then show ?thesis by simp
  qed
  also have "\<dots> = map (\<lambda>rk. map (?cell rk) ?ch) ?rh"
    by (rule index_loop_map [of "\<lambda>rk. map (?cell rk) ?ch" ?rh])
  finally show ?thesis .
qed

lemma cell_eq:
  assumes "i < length (rowHeaders (createPivotTable ops dat config))"
    and "j < length (columnHeaders (createPivotTable ops dat config))"
  shows "data (createPivotTable ops dat config) ! i ! j =
     aggregateValues ops
       (cell_records ops dat config (rowHeaders (createPivotTable ops dat config) ! i)
          (columnHeaders (createPivotTable ops dat config) ! j))
       (values' config) (effective_aggregation config)"
proof (cases "dat = []")
  case True
  with assms show ?thesis by (simp add: headers_empty)
next
  case False
  with assms show ?thesis by (simp add: data_eq rowHeaders_eq columnHeaders_eq)
qed

subsection \<open>The runtime used for evaluation\<close>

lemma js_lt_irrefl: "\<not> js_lt x x"
  by (cases x) (simp_all add: js_lt_def)

lemma js_lt_trans: "js_lt x y \<Longrightarrow> js_lt y z \<Longrightarrow> js_lt x z"
  by (cases x; cases y; cases z) (simp_all add: js_lt_def)

lemma js_lt_top: "x \<noteq> NaN \<Longrightarrow> x = PosInf \<or> js_lt x PosInf"
  by (cases x) (simp_all add: js_lt_def)

lemma js_lt_bottom: "x \<noteq> NaN \<Longrightarrow> x = NegInf \<or> js_lt NegInf x"
  by (cases x) (simp_all add: js_lt_def)

lemma js_ops_order: "number_order js_ops"
  unfolding number_order_def
  using js_lt_irrefl js_lt_trans js_lt_top js_lt_bottom
  by (auto simp: js_ops_def)

text \<open>
  The specification's examples 1 and 2, the same records under the average and under
  the default aggregation, and the coercions of example 5.
\<close>

lemma example_sum:
  "createPivotTable js_ops example_records (example_config (Some (js ''sum''))) =
     \<lparr>data = [[Fin 10, Fin 20], [Fin 5, Fin 0]], rowHeaders = [js ''A'', js ''B''],
      columnHeaders = [js ''X'', js ''Y'']\<rparr>"
  by code_simp

lemma example_count:
  "createPivotTable js_ops example_records (example_config (Some (js ''count''))) =
     \<lparr>data = [[Fin 1, Fin 1], [Fin 1, Fin 0]], rowHeaders = [js ''A'', js ''B''],
      columnHeaders = [js ''X'', js ''Y'']\<rparr>"
  by code_simp

lemma example_avg:
  "createPivotTable js_ops example_records (example_config (Some (js ''avg''))) =
     \<lparr>data = [[Fin 10, Fin 20], [Fin 5, Fin 0]], rowHeaders = [js ''A'', js ''B''],
      columnHeaders = [js ''X'', js ''Y'']\<rparr>"
  by code_simp

lemma example_none:
  "createPivotTable js_ops example_records (example_config None) =
     \<lparr>data = [[Fin 10, Fin 20], [Fin 5, Fin 0]], rowHeaders = [js ''A'', js ''B''],
      columnHeaders = [js ''X'', js ''Y'']\<rparr>"
  by code_simp

lemma example_empty_cell_records:
  "length (cell_records js_ops example_records (example_config (Some (js ''avg''))) (js ''B'') (js ''Y'')) = 0"
  by code_simp

lemma example_empty_cell:
  "\<forall>item \<in> set example_records.
     \<not> (group_key js_ops item [js ''s''] = js ''B'' \<and> group_key js_ops item [js ''o''] = js ''Y'')"
  by code_simp

lemma example_coercions:
  "coerce_number js_ops (Str (js ''n/a'')) = Fin 0 \<and>
   coerce_number js_ops (Str (js ''12.5'')) = Fin (25 / 2) \<and>
   coerce_number js_ops (Str (js ''-0'')) = Fin 0 \<and>
   coerce_number js_ops (Num (Fin 20)) = Fin 20 \<and>
   coerce_number js_ops Undefined = Fin 0"
  by code_simp

subsection \<open>Joining, counting and the value list\<close>

lemma join_Nil: "join ops [] sep = []"
  by (simp add: join_def)

lemma group_key_no_fields: "group_key ops item [] = []"
  by (simp add: group_key_def join_Nil)

lemma foldl_set_add_const: "foldl (\<lambda>s x. set_add s c) [c] xs = [c]"
  by (induction xs) (simp_all add: set_add_def)

lemma getUniqueValues_no_fields: "dat \<noteq> [] \<Longrightarrow> getUniqueValues ops dat [] = [[]]"
proof -
  assume "dat \<noteq> []"
  then obtain x xs where dat: "dat = x # xs" by (cases dat) auto
  have "foldl (\<lambda>s item. set_add s []) [] dat = foldl (\<lambda>s item. set_add s []) [[]] xs"
    by (simp add: dat set_add_def)
  also have "\<dots> = [[]]" by (rule foldl_set_add_const)
  finally show ?thesis by (simp add: getUniqueValues_def join_Nil)
qed





lemma length_concat_map_const:
  "length (concat (map (\<lambda>item. map (g item) vf) recs)) = length recs * length vf"
  by (induction recs) simp_all

lemma aggregate_count:
  "aggregateValues ops recs vf (js ''count'') = num_of_nat ops (length recs * length vf)"
proof -
  have ne: "js ''count'' \<noteq> js ''sum''" by (simp add: js_def)
  show ?thesis
    by (simp add: aggregateValues_def Let_def ne length_concat_map_const)
qed

lemma sum_list_indicator:
  "distinct hs \<Longrightarrow> a \<in> set hs \<Longrightarrow> (\<Sum>h\<leftarrow>hs. if a = h then (1::nat) else 0) = 1"
  by (induction hs) auto

lemma sum_list_indicator_conj:
  assumes "distinct hs" and "a \<in> set hs"
  shows "(\<Sum>h\<leftarrow>hs. if a = h \<and> P then (1::nat) else 0) = (if P then 1 else 0)"
  using sum_list_indicator [OF assms] by (cases P) simp_all

lemma partition_count:
  assumes "distinct hs" and "\<forall>x \<in> set xs. f x \<in> set hs"
  shows "(\<Sum>h\<leftarrow>hs. length (filter (\<lambda>x. f x = h \<and> P x) xs)) = length (filter P xs)"
  using assms(2)
proof (induction xs)
  case Nil
  then show ?case by simp
next
  case (Cons x xs)
  have "(\<Sum>h\<leftarrow>hs. length (filter (\<lambda>x. f x = h \<and> P x) (x # xs))) =
        (\<Sum>h\<leftarrow>hs. (if f x = h \<and> P x then 1 else 0) + length (filter (\<lambda>x. f x = h \<and> P x) xs))"
    by (intro arg_cong [where f = sum_list] map_cong refl) simp
  also have "\<dots> = (\<Sum>h\<leftarrow>hs. if f x = h \<and> P x then 1 else 0) +
                   (\<Sum>h\<leftarrow>hs. length (filter (\<lambda>x. f x = h \<and> P x) xs))"
    by (simp add: sum_list_addf)
  also have "\<dots> = (if P x then 1 else 0) + length (filter P xs)"
    using Cons sum_list_indicator_conj [OF assms(1), of "f x" "P x"] by simp
  finally show ?case by simp
qed

lemma cells_partition:
  "(\<Sum>rk\<leftarrow>getUniqueValues ops dat (rows config).
      \<Sum>ck\<leftarrow>getUniqueValues ops dat (columns config).
        length (cell_records ops dat config rk ck)) = length dat"
proof -
  let ?rh = "getUniqueValues ops dat (rows config)" and ?ch = "getUniqueValues ops dat (columns config)"
  let ?rk = "\<lambda>item. group_key ops item (rows config)" and ?ck = "\<lambda>item. group_key ops item (columns config)"
  have inner: "(\<Sum>ck\<leftarrow>?ch. length (cell_records ops dat config rk ck)) =
               length (filter (\<lambda>item. ?rk item = rk) dat)" for rk
  proof -
    have "(\<Sum>ck\<leftarrow>?ch. length (filter (\<lambda>item. ?ck item = ck \<and> ?rk item = rk) dat)) =
          length (filter (\<lambda>item. ?rk item = rk) dat)"
      by (rule partition_count) (simp_all add: getUniqueValues_distinct getUniqueValues_set)
    then show ?thesis by (simp add: cell_records_def conj_commute)
  qed
  have "(\<Sum>rk\<leftarrow>?rh. length (filter (\<lambda>item. ?rk item = rk \<and> True) dat)) = length (filter (\<lambda>_. True) dat)"
    by (rule partition_count) (simp_all add: getUniqueValues_distinct getUniqueValues_set)
  then show ?thesis by (simp add: inner)
qed

lemma code_coercion:
  "(let p = parseFloat ops v in if ToBoolean ops p then p else num_of_nat ops 0) = coerce_number ops v"
  by (auto simp: ToBoolean_def coerce_number_def Let_def)

lemma code_values:
  "concat (map (\<lambda>item. map (\<lambda>field. let p = parseFloat ops (get_field item field)
                                        in if ToBoolean ops p then p else num_of_nat ops 0) vf) recs)
   = value_list ops recs vf"
  by (induction recs) (simp_all add: code_coercion)

lemma aggregateValues_values:
  "aggregateValues ops recs vf agg =
     (if recs = [] then num_of_nat ops 0
      else if agg = js ''sum'' then foldl (num_add ops) (num_of_nat ops 0) (value_list ops recs vf)
      else if agg = js ''count'' then num_of_nat ops (length (value_list ops recs vf))
      else if agg = js ''avg'' then
        num_div ops (foldl (num_add ops) (num_of_nat ops 0) (value_list ops recs vf))
          (num_of_nat ops (length (value_list ops recs vf)))
      else if agg = js ''min'' then Math_min ops (value_list ops recs vf)
      else if agg = js ''max'' then Math_max ops (value_list ops recs vf)
      else foldl (num_add ops) (num_of_nat ops 0) (value_list ops recs vf))"
  unfolding aggregateValues_def code_values by (simp add: Let_def)

lemma coerce_number_plain:
  "number_order ops \<Longrightarrow>
   coerce_number ops v \<noteq> num_nan ops \<and> coerce_number ops v \<noteq> num_neg_zero ops"
  by (auto simp: coerce_number_def Let_def number_order_def)

lemma value_list_plain:
  "number_order ops \<Longrightarrow> plain_numbers ops (value_list ops recs vf)"
  unfolding plain_numbers_def
  by (induction recs) (use coerce_number_plain in \<open>auto\<close>)

lemma value_list_nonempty: "recs \<noteq> [] \<Longrightarrow> vf \<noteq> [] \<Longrightarrow> value_list ops recs vf \<noteq> []"
  by (cases recs) simp_all

lemma min_loop_step:
  assumes "x \<noteq> num_nan ops" and "x \<noteq> num_neg_zero ops"
  shows "min_loop ops l (x # xs) = min_loop ops (if num_lt ops x l then x else l) xs"
  using assms by (auto simp: Let_def)

lemma max_loop_step:
  assumes "x \<noteq> num_nan ops" and "h \<noteq> num_neg_zero ops"
  shows "max_loop ops h (x # xs) = max_loop ops (if num_lt ops h x then x else h) xs"
  using assms by (auto simp: Let_def)

lemma min_loop_member:
  "plain_numbers ops xs \<Longrightarrow> min_loop ops l xs \<in> insert l (set xs)"
proof (induction xs arbitrary: l)
  case Nil
  then show ?case by simp
next
  case (Cons x xs)
  then have px: "x \<noteq> num_nan ops" "x \<noteq> num_neg_zero ops"
    and pxs: "plain_numbers ops xs"
    by (simp_all add: plain_numbers_def)
  from Cons.IH [OF pxs, of "if num_lt ops x l then x else l"]
  show ?case unfolding min_loop_step [OF px] by (auto split: if_splits)
qed

lemma min_loop_lower:
  assumes ord: "number_order ops"
  shows "plain_numbers ops xs \<Longrightarrow> \<forall>v \<in> A. \<not> num_lt ops v l \<Longrightarrow>
         \<forall>v \<in> A \<union> set xs. \<not> num_lt ops v (min_loop ops l xs)"
proof (induction xs arbitrary: l A)
  case Nil
  then show ?case by simp
next
  case (Cons x xs)
  then have px: "x \<noteq> num_nan ops" "x \<noteq> num_neg_zero ops"
    and pxs: "plain_numbers ops xs"
    by (simp_all add: plain_numbers_def)
  let ?l = "if num_lt ops x l then x else l"
  have irrefl: "\<not> num_lt ops y y" for y using ord by (simp add: number_order_def)
  have trans: "num_lt ops a b \<Longrightarrow> num_lt ops b c \<Longrightarrow> num_lt ops a c" for a b c
    using ord unfolding number_order_def by blast
  have "\<forall>v \<in> insert x A. \<not> num_lt ops v ?l"
    using Cons.prems(2) irrefl trans by auto
  from Cons.IH [OF pxs this] show ?case
    unfolding min_loop_step [OF px] by simp
qed

lemma Math_min_is_minimum:
  assumes ord: "number_order ops" and plain: "plain_numbers ops xs" and ne: "xs \<noteq> []"
  shows "is_minimum ops (Math_min ops xs) xs"
proof -
  let ?m = "Math_min ops xs"
  have low: "\<forall>v \<in> set xs. \<not> num_lt ops v ?m"
    using min_loop_lower [OF ord plain, of "{}" "num_pos_inf ops"] by (simp add: Math_min_def)
  have mem: "?m \<in> insert (num_pos_inf ops) (set xs)"
    using min_loop_member [OF plain] by (simp add: Math_min_def)
  have "?m \<in> set xs"
  proof (cases "?m = num_pos_inf ops")
    case True
    from ne obtain v where v: "v \<in> set xs" by (cases xs) auto
    then have "v \<noteq> num_nan ops" using plain by (simp add: plain_numbers_def)
    then have "v = num_pos_inf ops \<or> num_lt ops v (num_pos_inf ops)"
      using ord by (simp add: number_order_def)
    with low v True show ?thesis by auto
  next
    case False
    with mem show ?thesis by simp
  qed
  with low show ?thesis by (simp add: is_minimum_def)
qed

lemma max_loop_member:
  "plain_numbers ops xs \<Longrightarrow> h \<noteq> num_neg_zero ops \<Longrightarrow> max_loop ops h xs \<in> insert h (set xs)"
proof (induction xs arbitrary: h)
  case Nil
  then show ?case by simp
next
  case (Cons x xs)
  then have px: "x \<noteq> num_nan ops" "x \<noteq> num_neg_zero ops"
    and pxs: "plain_numbers ops xs"
    by (simp_all add: plain_numbers_def)
  have "(if num_lt ops h x then x else h) \<noteq> num_neg_zero ops"
    using px(2) Cons.prems(2) by simp
  from Cons.IH [OF pxs this]
  show ?case unfolding max_loop_step [OF px(1) Cons.prems(2)] by (auto split: if_splits)
qed

lemma max_loop_upper:
  assumes ord: "number_order ops"
  shows "plain_numbers ops xs \<Longrightarrow> h \<noteq> num_neg_zero ops \<Longrightarrow> \<forall>v \<in> A. \<not> num_lt ops h v \<Longrightarrow>
         \<forall>v \<in> A \<union> set xs. \<not> num_lt ops (max_loop ops h xs) v"
proof (induction xs arbitrary: h A)
  case Nil
  then show ?case by simp
next
  case (Cons x xs)
  then have px: "x \<noteq> num_nan ops" "x \<noteq> num_neg_zero ops"
    and pxs: "plain_numbers ops xs"
    by (simp_all add: plain_numbers_def)
  let ?h = "if num_lt ops h x then x else h"
  have irrefl: "\<not> num_lt ops y y" for y using ord by (simp add: number_order_def)
  have trans: "num_lt ops a b \<Longrightarrow> num_lt ops b c \<Longrightarrow> num_lt ops a c" for a b c
    using ord unfolding number_order_def by blast
  have nz: "?h \<noteq> num_neg_zero ops"
    using px(2) Cons.prems(2) by simp
  have "\<forall>v \<in> insert x A. \<not> num_lt ops ?h v"
    using Cons.prems(3) irrefl trans by auto
  from Cons.IH [OF pxs nz this] show ?case
    unfolding max_loop_step [OF px(1) Cons.prems(2)] by simp
qed

lemma Math_max_is_maximum:
  assumes ord: "number_order ops" and plain: "plain_numbers ops xs" and ne: "xs \<noteq> []"
  shows "is_maximum ops (Math_max ops xs) xs"
proof -
  let ?m = "Math_max ops xs"
  have ninf: "num_neg_inf ops \<noteq> num_neg_zero ops"
    using ord by (simp add: number_order_def)
  have up: "\<forall>v \<in> set xs. \<not> num_lt ops ?m v"
    using max_loop_upper [OF ord plain ninf, of "{}"] by (simp add: Math_max_def)
  have mem: "?m \<in> insert (num_neg_inf ops) (set xs)"
    using max_loop_member [OF plain ninf] by (simp add: Math_max_def)
  have "?m \<in> set xs"
  proof (cases "?m = num_neg_inf ops")
    case True
    from ne obtain v where v: "v \<in> set xs" by (cases xs) auto
    then have "v \<noteq> num_nan ops" using plain by (simp add: plain_numbers_def)
    then have "v = num_neg_inf ops \<or> num_lt ops (num_neg_inf ops) v"
      using ord by (simp add: number_order_def)
    with up v True show ?thesis by auto
  next
    case False
    with mem show ?thesis by simp
  qed
  with up show ?thesis by (simp add: is_maximum_def)
qed

lemma kind_names_distinct:
  "js ''count'' \<noteq> js ''sum''" "js ''avg'' \<noteq> js ''sum''" "js ''avg'' \<noteq> js ''count''"
  "js ''min'' \<noteq> js ''sum''" "js ''min'' \<noteq> js ''count''" "js ''min'' \<noteq> js ''avg''"
  "js ''max'' \<noteq> js ''sum''" "js ''max'' \<noteq> js ''count''" "js ''max'' \<noteq> js ''avg''"
  "js ''max'' \<noteq> js ''min''"
  by (simp_all add: js_def)

lemma aggregate_reduces:
  assumes ord: "number_order ops" and "recs \<noteq> []" and "vf \<noteq> []"
  shows "reduces_to ops k (value_list ops recs vf) (aggregateValues ops recs vf (kind_name k))"
proof -
  have plain: "plain_numbers ops (value_list ops recs vf)"
    using ord by (rule value_list_plain)
  have ne: "value_list ops recs vf \<noteq> []"
    using assms(2,3) by (rule value_list_nonempty)
  show ?thesis
  proof (cases k)
    case Min
    then show ?thesis
      using assms(2) Math_min_is_minimum [OF ord plain ne]
      by (simp add: aggregateValues_values kind_names_distinct)
  next
    case Max
    then show ?thesis
      using assms(2) Math_max_is_maximum [OF ord plain ne]
      by (simp add: aggregateValues_values kind_names_distinct)
  qed (use assms(2) in \<open>simp_all add: aggregateValues_values kind_names_distinct\<close>)
qed

lemma effective_kind:
  "configured_kind config k \<Longrightarrow> aggregateValues ops recs vf (effective_aggregation config) =
     aggregateValues ops recs vf (kind_name k)"
  by (auto simp: configured_kind_def effective_aggregation_def split: option.splits)

subsection \<open>The store\<close>

text \<open>
  Each function on the store returns, leaves every object of the store it was given
  unchanged, and computes what the functional model computes.
\<close>

lemma preserved_refl: "preserved h h"
  by (simp add: preserved_def)

lemma preserved_length: "preserved h h' \<Longrightarrow> length h \<le> length h'"
proof -
  assume "preserved h h'"
  then have "length (take (length h) h') = length h" by (simp add: preserved_def)
  then show ?thesis by simp
qed

lemma preserved_nth: "preserved h h' \<Longrightarrow> a < length h \<Longrightarrow> h' ! a = h ! a"
  unfolding preserved_def by (metis nth_take)

lemma preserved_trans: "preserved h h1 \<Longrightarrow> preserved h1 h2 \<Longrightarrow> preserved h h2"
proof -
  assume a: "preserved h h1" and b: "preserved h1 h2"
  have "take (length h) h2 = take (length h) (take (length h1) h2)"
    using preserved_length [OF a] by (simp add: min_def)
  also have "\<dots> = take (length h) h1" using b by (simp add: preserved_def)
  also have "\<dots> = h" using a by (simp add: preserved_def)
  finally show ?thesis by (simp add: preserved_def)
qed

lemma preserved_append: "preserved h (h @ t)"
  by (simp add: preserved_def)

lemma preserved_alloc: "alloc h ob = (a, h') \<Longrightarrow> preserved h h' \<and> a = length h \<and> deref h' a = Some ob"
  by (auto simp: alloc_def preserved_def deref_def)

lemma preserved_update: "preserved h h' \<Longrightarrow> length h \<le> a \<Longrightarrow> preserved h (h'[a := x])"
  by (simp add: preserved_def)

lemma deref_preserved: "preserved h h' \<Longrightarrow> deref h a = Some x \<Longrightarrow> deref h' a = Some x"
  using preserved_length [of h h'] preserved_nth [of h h' a]
  by (auto simp: deref_def split: if_splits)

lemma rec_at_preserved: "preserved h h' \<Longrightarrow> rec_at h a = Some x \<Longrightarrow> rec_at h' a = Some x"
  by (auto simp: rec_at_def dest: deref_preserved split: option.splits hobj.splits)

lemma arr_at_preserved: "preserved h h' \<Longrightarrow> arr_at h a = Some x \<Longrightarrow> arr_at h' a = Some x"
  by (auto simp: arr_at_def dest: deref_preserved split: option.splits hobj.splits)

lemma obj_at_preserved: "preserved h h' \<Longrightarrow> obj_at h a = Some x \<Longrightarrow> obj_at h' a = Some x"
  by (auto simp: obj_at_def dest: deref_preserved split: option.splits hobj.splits)

lemma strs_at_preserved: "preserved h h' \<Longrightarrow> strs_at h a = Some x \<Longrightarrow> strs_at h' a = Some x"
  by (auto simp: strs_at_def dest: arr_at_preserved split: Option.bind_splits)

lemma nums_at_preserved: "preserved h h' \<Longrightarrow> nums_at h a = Some x \<Longrightarrow> nums_at h' a = Some x"
  by (auto simp: nums_at_def dest: arr_at_preserved split: Option.bind_splits)

lemma recs_at_preserved: "preserved h h' \<Longrightarrow> recs_at h items recs \<Longrightarrow> recs_at h' items recs"
  unfolding recs_at_def
  by (erule list_all2_mono) (auto dest: rec_at_preserved split: Option.bind_splits)

lemma those_map_Some: "those (map f xs) = Some ys \<longleftrightarrow> list_all2 (\<lambda>x y. f x = Some y) xs ys"
proof (induction xs arbitrary: ys)
  case Nil
  then show ?case by auto
next
  case (Cons x xs)
  then show ?case
    by (cases ys) (auto split: option.splits)
qed

lemma those_map_total: "those (map (\<lambda>x. Some (f x)) xs) = Some (map f xs)"
  by (induction xs) simp_all

lemma read_records_iff:
  "read_records h da = Some recs \<longleftrightarrow> (\<exists>items. arr_at h da = Some items \<and> recs_at h items recs)"
  by (auto simp: read_records_def recs_at_def those_map_Some split: Option.bind_splits)

lemma deref_length: "deref h a = Some x \<Longrightarrow> a < length h"
  by (simp add: deref_def split: if_splits)

lemma arr_at_length: "arr_at h a = Some x \<Longrightarrow> a < length h"
  by (auto simp: arr_at_def dest: deref_length split: option.splits hobj.splits)

lemma arr_at_alloc: "arr_at (h @ [Arr xs]) (length h) = Some xs"
  by (simp add: arr_at_def deref_def)

lemma set_at_alloc: "set_at (h @ [SetObj xs]) (length h) = Some xs"
  by (simp add: set_at_def deref_def)

lemma arr_at_update: "a < length h \<Longrightarrow> arr_at (h[a := Arr xs]) a = Some xs"
  by (simp add: arr_at_def deref_def)

lemma set_at_update: "a < length h \<Longrightarrow> set_at (h[a := SetObj xs]) a = Some xs"
  by (simp add: set_at_def deref_def)

lemma strs_at_strings: "arr_at h a = Some (map (\<lambda>m. Prim (Str m)) xs) \<Longrightarrow> strs_at h a = Some xs"
  by (simp add: strs_at_def the_str_def those_map_total comp_def)

lemma nums_at_numbers: "arr_at h a = Some (map (\<lambda>n. Prim (Num n)) xs) \<Longrightarrow> nums_at h a = Some xs"
  by (simp add: nums_at_def the_num_def those_map_total comp_def)

lemma key_expr_ok:
  assumes "rec_at h r = Some m" and "strs_at h fa = Some fs"
  shows "\<exists>h'. key_expr ops h r fa = Some (join ops (map (get_field m) fs) (js '' - ''), h') \<and> preserved h h'"
  using assms by (simp add: key_expr_def alloc_def preserved_append)

lemma matchesGroup_h_ok:
  assumes "rec_at h r = Some m" and "strs_at h fa = Some fs"
  shows "\<exists>h'. matchesGroup_h ops h r fa g = Some (matchesGroup ops m fs g, h') \<and> preserved h h'"
  using key_expr_ok [OF assms, of ops]
  by (auto simp: matchesGroup_h_def matchesGroup_def)

lemma forEach_add_ok:
  assumes "recs_at hb items recs" and "strs_at hb fa = Some fs" and "length hb \<le> s"
  shows "preserved hb h \<Longrightarrow> set_at h s = Some st \<Longrightarrow>
         \<exists>h'. forEach_add ops h s fa items = Some h' \<and> preserved hb h' \<and>
              set_at h' s = Some (foldl (\<lambda>s item. set_add s (join ops (map (get_field item) fs) (js '' - ''))) st recs)"
  using assms(1)
proof (induction items arbitrary: recs h st)
  case Nil
  then show ?case by (simp add: recs_at_def)
next
  case (Cons item items)
  from Cons.prems(3) obtain m recs' where recs: "recs = m # recs'"
    and item: "Option.bind (the_ref item) (rec_at hb) = Some m" and rest: "recs_at hb items recs'"
    by (auto simp: recs_at_def list_all2_Cons1)
  from item obtain r where r: "the_ref item = Some r" "rec_at hb r = Some m"
    by (auto split: Option.bind_splits)
  have rh: "rec_at h r = Some m" using Cons.prems(1) r(2) by (rule rec_at_preserved)
  have fh: "strs_at h fa = Some fs" using Cons.prems(1) assms(2) by (rule strs_at_preserved)
  from key_expr_ok [OF rh fh, of ops] obtain h1 where
    k: "key_expr ops h r fa = Some (join ops (map (get_field m) fs) (js '' - ''), h1)" and p1: "preserved h h1"
    by blast
  let ?v = "join ops (map (get_field m) fs) (js '' - '')"
  have s_lt: "s < length h" using Cons.prems(2) by (auto simp: set_at_def dest: deref_length split: option.splits hobj.splits)
  have s1: "set_at h1 s = Some st"
    using Cons.prems(2) p1 by (auto simp: set_at_def dest: deref_preserved split: option.splits hobj.splits)
  let ?h2 = "h1[s := SetObj (set_add st ?v)]"
  have p2: "preserved hb ?h2"
    using preserved_trans [OF Cons.prems(1) p1] assms(3) by (rule preserved_update)
  have s2: "set_at ?h2 s = Some (set_add st ?v)"
    using s_lt preserved_length [OF p1] by (intro set_at_update) simp
  from Cons.IH [OF p2 s2 rest] obtain h' where
    "forEach_add ops ?h2 s fa items = Some h'" "preserved hb h'"
    "set_at h' s = Some (foldl (\<lambda>s item. set_add s (join ops (map (get_field item) fs) (js '' - ''))) (set_add st ?v) recs')"
    by blast
  then show ?case
    by (simp add: r k s1 recs)
qed

lemma getUniqueValues_h_ok:
  assumes "arr_at h da = Some items" and "recs_at h items recs" and "strs_at h fa = Some fs"
  shows "\<exists>a h'. getUniqueValues_h ops h da fa = Some (a, h') \<and> preserved h h' \<and>
           strs_at h' a = Some (getUniqueValues ops recs fs)"
proof -
  let ?h1 = "h @ [SetObj []]"
  have p1: "preserved h ?h1" by (rule preserved_append)
  have items1: "arr_at ?h1 da = Some items" using p1 assms(1) by (rule arr_at_preserved)
  from forEach_add_ok [OF assms(2,3) order_refl p1 set_at_alloc, of ops]
  obtain h2 where fe: "forEach_add ops ?h1 (length h) fa items = Some h2" and p2: "preserved h h2"
    and s2: "set_at h2 (length h) =
       Some (foldl (\<lambda>s item. set_add s (join ops (map (get_field item) fs) (js '' - ''))) [] recs)"
    by blast
  let ?members = "foldl (\<lambda>s item. set_add s (join ops (map (get_field item) fs) (js '' - ''))) [] recs"
  let ?h3 = "h2 @ [Arr (map (\<lambda>m. Prim (Str m)) ?members)]"
  have x3: "strs_at ?h3 (length h2) = Some ?members"
    by (rule strs_at_strings) (rule arr_at_alloc)
  let ?h4 = "h2 @ [Arr (map (\<lambda>m. Prim (Str m)) (sort ?members))]"
  have p4: "preserved h ?h4"
    using p2 preserved_append by (rule preserved_trans)
  have x4: "strs_at ?h4 (length h2) = Some (sort ?members)"
    by (rule strs_at_strings) (rule arr_at_alloc)
  have "getUniqueValues_h ops h da fa = Some (length h2, ?h4)"
    by (simp add: getUniqueValues_h_def alloc_def items1 fe s2 x3)
  with p4 x4 show ?thesis
    by (simp add: getUniqueValues_def)
qed

lemma str_index_ok: "strs_at h a = Some xs \<Longrightarrow> i < length xs \<Longrightarrow> str_index h a i = Some (xs ! i)"
  by (simp add: str_index_def)

lemma recs_at_Cons:
  "recs_at h (item # items) recs \<longleftrightarrow>
     (\<exists>r m recs'. recs = m # recs' \<and> the_ref item = Some r \<and> rec_at h r = Some m \<and> recs_at h items recs')"
  by (auto simp: recs_at_def list_all2_Cons1 split: Option.bind_splits)

lemma recs_at_Nil: "recs_at h [] recs \<longleftrightarrow> recs = []"
  by (simp add: recs_at_def)

lemma recs_at_length: "recs_at h items recs \<Longrightarrow> length items = length recs"
  by (simp add: recs_at_def list_all2_lengthD)

lemma filter_h_ok:
  assumes ra: "strs_at hb ra = Some rws" and ca: "strs_at hb ca = Some cls"
    and rha: "strs_at hb rha = Some rhs" and cha: "strs_at hb cha = Some chs"
    and i: "i < length rhs" and j: "j < length chs"
  shows "recs_at hb items recs \<Longrightarrow> preserved hb h \<Longrightarrow>
         \<exists>kept h'. filter_h ops h ra ca rha cha i j items = Some (kept, h') \<and> preserved h h' \<and>
           recs_at hb kept
             (filter (\<lambda>item. matchesGroup ops item rws (rhs ! i) \<and> matchesGroup ops item cls (chs ! j)) recs)"
proof (induction items arbitrary: recs h)
  case Nil
  then show ?case by (simp add: recs_at_Nil preserved_refl)
next
  case (Cons item items)
  from Cons.prems(1) obtain r m recs' where recs: "recs = m # recs'"
    and r: "the_ref item = Some r" "rec_at hb r = Some m" and rest: "recs_at hb items recs'"
    by (auto simp: recs_at_Cons)
  have rk: "str_index h rha i = Some (rhs ! i)"
    using strs_at_preserved [OF Cons.prems(2) rha] i by (rule str_index_ok)
  from matchesGroup_h_ok [OF rec_at_preserved [OF Cons.prems(2) r(2)] strs_at_preserved [OF Cons.prems(2) ra], of ops "rhs ! i"]
  obtain h1 where m1: "matchesGroup_h ops h r ra (rhs ! i) = Some (matchesGroup ops m rws (rhs ! i), h1)"
    and p1: "preserved h h1" by blast
  have pb1: "preserved hb h1" using Cons.prems(2) p1 by (rule preserved_trans)
  let ?b1 = "matchesGroup ops m rws (rhs ! i)" and ?b2 = "matchesGroup ops m cls (chs ! j)"
  have "\<exists>h2. (if ?b1 then do { ck \<leftarrow> str_index h1 cha j; matchesGroup_h ops h1 r ca ck }
                else Some (False, h1)) = Some (?b1 \<and> ?b2, h2) \<and> preserved h1 h2"
  proof (cases ?b1)
    case True
    have ck: "str_index h1 cha j = Some (chs ! j)"
      using strs_at_preserved [OF pb1 cha] j by (rule str_index_ok)
    from matchesGroup_h_ok [OF rec_at_preserved [OF pb1 r(2)] strs_at_preserved [OF pb1 ca], of ops "chs ! j"]
    show ?thesis using True ck by auto
  next
    case False
    then show ?thesis by (simp add: preserved_refl)
  qed
  then obtain h2 where m2: "(if ?b1 then do { ck \<leftarrow> str_index h1 cha j; matchesGroup_h ops h1 r ca ck }
                else Some (False, h1)) = Some (?b1 \<and> ?b2, h2)" and p2: "preserved h1 h2"
    by blast
  have pb2: "preserved hb h2" using pb1 p2 by (rule preserved_trans)
  from Cons.IH [OF rest pb2] obtain kept h3 where
    f: "filter_h ops h2 ra ca rha cha i j items = Some (kept, h3)" and p3: "preserved h2 h3"
    and k: "recs_at hb kept
             (filter (\<lambda>item. matchesGroup ops item rws (rhs ! i) \<and> matchesGroup ops item cls (chs ! j)) recs')"
    by blast
  have "filter_h ops h ra ca rha cha i j (item # items) =
          Some (if ?b1 \<and> ?b2 then item # kept else kept, h3)"
    by (simp add: r(1) rk m1 m2 f)
  moreover have "preserved h h3"
    using preserved_trans [OF p1 p2] p3 by (rule preserved_trans)
  moreover have "recs_at hb (if ?b1 \<and> ?b2 then item # kept else kept)
     (filter (\<lambda>item. matchesGroup ops item rws (rhs ! i) \<and> matchesGroup ops item cls (chs ! j)) recs)"
    using k r by (auto simp: recs recs_at_Cons)
  ultimately show ?case by blast
qed

lemma flatMap_h_ok:
  assumes va: "strs_at hb va = Some vfs"
  shows "recs_at hb items recs \<Longrightarrow> preserved hb h \<Longrightarrow>
         \<exists>h'. flatMap_h ops h va items =
                 Some (concat (map (\<lambda>item. map (\<lambda>field. let p = parseFloat ops (get_field item field)
                                   in if ToBoolean ops p then p else num_of_nat ops 0) vfs) recs), h') \<and>
               preserved h h'"
proof (induction items arbitrary: recs h)
  case Nil
  then show ?case by (simp add: recs_at_Nil preserved_refl)
next
  case (Cons item items)
  from Cons.prems(1) obtain r m recs' where recs: "recs = m # recs'"
    and r: "the_ref item = Some r" "rec_at hb r = Some m" and rest: "recs_at hb items recs'"
    by (auto simp: recs_at_Cons)
  let ?inner = "map (\<lambda>field. let p = parseFloat ops (get_field m field)
                              in if ToBoolean ops p then p else num_of_nat ops 0) vfs"
  let ?h1 = "h @ [Arr (map (\<lambda>n. Prim (Num n)) ?inner)]"
  have p1: "preserved h ?h1" by (rule preserved_append)
  from Cons.IH [OF rest preserved_trans [OF Cons.prems(2) p1]] obtain h2 where
    f: "flatMap_h ops ?h1 va items =
          Some (concat (map (\<lambda>item. map (\<lambda>field. let p = parseFloat ops (get_field item field)
                                   in if ToBoolean ops p then p else num_of_nat ops 0) vfs) recs'), h2)"
    and p2: "preserved ?h1 h2"
    by blast
  have "flatMap_h ops h va (item # items) =
          Some (?inner @ concat (map (\<lambda>item. map (\<lambda>field. let p = parseFloat ops (get_field item field)
                                   in if ToBoolean ops p then p else num_of_nat ops 0) vfs) recs'), h2)"
    using f by (simp add: r(1) rec_at_preserved [OF Cons.prems(2) r(2)]
        strs_at_preserved [OF Cons.prems(2) va] alloc_def)
  moreover have "preserved h h2" using p1 p2 by (rule preserved_trans)
  ultimately show ?case by (simp add: recs)
qed

lemma aggregateValues_h_ok:
  assumes "arr_at h fd = Some items" and "recs_at h items recs" and "strs_at h va = Some vfs"
  shows "\<exists>h'. aggregateValues_h ops h fd va (Prim (Str agg)) =
                 Some (aggregateValues ops recs vfs agg, h') \<and>
              preserved h h'"
proof (cases "items = []")
  case True
  then have "recs = []" using assms(2) by (simp add: recs_at_Nil)
  then show ?thesis
    using True assms(1) by (simp add: aggregateValues_h_def aggregateValues_def preserved_refl)
next
  case False
  then have ne: "recs \<noteq> []" using recs_at_length [OF assms(2)] by auto
  define flat where "flat = concat (map (\<lambda>item. map (\<lambda>field. let p = parseFloat ops (get_field item field)
                                   in if ToBoolean ops p then p else num_of_nat ops 0) vfs) recs)"
  from flatMap_h_ok [OF assms(3,2) preserved_refl, of ops] obtain h1 where
    f: "flatMap_h ops h va items = Some (flat, h1)" and p1: "preserved h h1"
    unfolding flat_def by blast
  let ?h2 = "h1 @ [Arr (map (\<lambda>n. Prim (Num n)) flat)]"
  have n: "nums_at ?h2 (length h1) = Some flat"
    by (rule nums_at_numbers) (rule arr_at_alloc)
  have p2: "preserved h ?h2" using p1 preserved_append by (rule preserved_trans)
  have pure: "aggregateValues ops recs vfs agg =
      (if agg = js ''sum'' then foldl (num_add ops) (num_of_nat ops 0) flat
       else if agg = js ''count'' then num_of_nat ops (length flat)
       else if agg = js ''avg'' then
         num_div ops (foldl (num_add ops) (num_of_nat ops 0) flat) (num_of_nat ops (length flat))
       else if agg = js ''min'' then Math_min ops flat
       else if agg = js ''max'' then Math_max ops flat
       else foldl (num_add ops) (num_of_nat ops 0) flat)"
    using ne unfolding aggregateValues_def flat_def by (simp add: Let_def)
  have "aggregateValues_h ops h fd va (Prim (Str agg)) = Some (aggregateValues ops recs vfs agg, ?h2)"
    unfolding pure using False
    by (simp add: aggregateValues_h_def assms(1) f alloc_def n)
  with p2 show ?thesis by blast
qed

lemma arr_at_same: "a < length h \<Longrightarrow> a < length h' \<Longrightarrow> h' ! a = h ! a \<Longrightarrow> arr_at h' a = arr_at h a"
  by (simp add: arr_at_def deref_def)

lemma nums_at_same: "a < length h \<Longrightarrow> a < length h' \<Longrightarrow> h' ! a = h ! a \<Longrightarrow> nums_at h' a = nums_at h a"
  by (simp add: nums_at_def arr_at_def deref_def)

lemma nums_at_length: "nums_at h a = Some x \<Longrightarrow> a < length h"
  by (auto simp: nums_at_def dest: arr_at_length split: Option.bind_splits)

lemma strs_at_arr: "strs_at h a = Some xs \<Longrightarrow> \<exists>vs. arr_at h a = Some vs \<and> length vs = length xs"
  by (auto simp: strs_at_def those_map_Some list_all2_lengthD split: Option.bind_splits)

lemma inner_loop_ok:
  fixes ops :: "'n number_ops" and agg :: jsstring
  assumes da: "arr_at hb da = Some items" and recs: "recs_at hb items recs"
    and ra: "strs_at hb ra = Some rws" and ca: "strs_at hb ca = Some cls"
    and va: "strs_at hb va = Some vfs"
    and rha: "strs_at hb rha = Some rhs" and cha: "strs_at hb cha = Some chs"
    and i: "i < length rhs" and row: "length hb \<le> row"
  defines "cell \<equiv> \<lambda>j. aggregateValues ops
      (filter (\<lambda>item. matchesGroup ops item rws (rhs ! i) \<and> matchesGroup ops item cls (chs ! j)) recs)
      vfs agg"
  shows "preserved hb h \<Longrightarrow> arr_at h row = Some cells0 \<Longrightarrow> \<forall>j \<in> set cols. j < length chs \<Longrightarrow>
         \<exists>h'. inner_loop ops h da ra ca va (Prim (Str agg)) rha cha row i cols = Some h' \<and> preserved hb h' \<and>
              length h \<le> length h' \<and> (\<forall>a < length h. a \<noteq> row \<longrightarrow> h' ! a = h ! a) \<and>
              arr_at h' row = Some (cells0 @ map (\<lambda>j. Prim (Num (cell j))) cols)"
proof (induction cols arbitrary: h cells0)
  case Nil
  then show ?case by simp
next
  case (Cons j cols)
  note pres = Cons.prems(1)
  have j: "j < length chs" using Cons.prems(3) by simp
  have items_h: "arr_at h da = Some items" using pres da by (rule arr_at_preserved)
  let ?sub = "filter (\<lambda>item. matchesGroup ops item rws (rhs ! i) \<and> matchesGroup ops item cls (chs ! j)) recs"
  from filter_h_ok [OF ra ca rha cha i j recs pres, of ops] obtain kept h1 where
    f: "filter_h ops h ra ca rha cha i j items = Some (kept, h1)" and p1: "preserved h h1"
    and k: "recs_at hb kept ?sub"
    by blast
  let ?h2 = "h1 @ [Arr kept]"
  have pb2: "preserved hb ?h2"
    using preserved_trans [OF pres p1] preserved_append by (rule preserved_trans)
  from aggregateValues_h_ok [OF arr_at_alloc recs_at_preserved [OF pb2 k] strs_at_preserved [OF pb2 va], of ops agg]
  obtain h3 where a: "aggregateValues_h ops ?h2 (length h1) va (Prim (Str agg)) = Some (cell j, h3)"
    and p3: "preserved ?h2 h3"
    unfolding cell_def by blast
  have p03: "preserved h h3"
    using preserved_trans [OF p1 preserved_append] p3 by (rule preserved_trans)
  have cells: "arr_at h3 row = Some cells0" using p03 Cons.prems(2) by (rule arr_at_preserved)
  have row_lt: "row < length h" using Cons.prems(2) by (rule arr_at_length)
  let ?h4 = "h3[row := Arr (cells0 @ [Prim (Num (cell j))])]"
  have pb4: "preserved hb ?h4"
    using preserved_trans [OF pres p03] row by (rule preserved_update)
  have c4: "arr_at ?h4 row = Some (cells0 @ [Prim (Num (cell j))])"
    using row_lt preserved_length [OF p03] by (intro arr_at_update) simp
  have cols: "\<forall>j \<in> set cols. j < length chs" using Cons.prems(3) by simp
  from Cons.IH [OF pb4 c4 cols] obtain h' where
    l: "inner_loop ops ?h4 da ra ca va (Prim (Str agg)) rha cha row i cols = Some h'" and pb: "preserved hb h'"
    and len: "length ?h4 \<le> length h'" and fr: "\<forall>a < length ?h4. a \<noteq> row \<longrightarrow> h' ! a = ?h4 ! a"
    and c: "arr_at h' row = Some ((cells0 @ [Prim (Num (cell j))]) @ map (\<lambda>j. Prim (Num (cell j))) cols)"
    by blast
  have "inner_loop ops h da ra ca va (Prim (Str agg)) rha cha row i (j # cols) = Some h'"
    by (simp add: items_h f alloc_def a cells l)
  moreover have "length h \<le> length h'"
    using preserved_length [OF p03] len by simp
  moreover have "\<forall>a < length h. a \<noteq> row \<longrightarrow> h' ! a = h ! a"
  proof (intro allI impI)
    fix a assume a: "a < length h" "a \<noteq> row"
    then have "a < length ?h4" using preserved_length [OF p03] by simp
    then have "h' ! a = ?h4 ! a" using fr a(2) by simp
    also have "\<dots> = h3 ! a" using a(2) by simp
    also have "\<dots> = h ! a" using p03 a(1) by (rule preserved_nth)
    finally show "h' ! a = h ! a" .
  qed
  ultimately show ?case using pb c by simp
qed

lemma outer_loop_ok:
  fixes ops :: "'n number_ops" and agg :: jsstring
  assumes da: "arr_at hb da = Some items" and recs: "recs_at hb items recs"
    and ra: "strs_at hb ra = Some rws" and ca: "strs_at hb ca = Some cls"
    and va: "strs_at hb va = Some vfs"
    and rha: "strs_at hb rha = Some rhs" and cha: "strs_at hb cha = Some chs"
    and pd: "length hb \<le> pd"
  defines "cell \<equiv> \<lambda>i j. aggregateValues ops
      (filter (\<lambda>item. matchesGroup ops item rws (rhs ! i) \<and> matchesGroup ops item cls (chs ! j)) recs)
      vfs agg"
  shows "preserved hb h \<Longrightarrow> arr_at h pd = Some (map Ref ras) \<Longrightarrow>
         list_all2 (\<lambda>a cells. a \<noteq> pd \<and> nums_at h a = Some cells) ras mat0 \<Longrightarrow>
         \<forall>i \<in> set idx. i < length rhs \<Longrightarrow>
         \<exists>h' ras'. outer_loop ops h da ra ca va (Prim (Str agg)) rha cha pd idx = Some h' \<and> preserved hb h' \<and>
              arr_at h' pd = Some (map Ref ras') \<and>
              list_all2 (\<lambda>a cells. a \<noteq> pd \<and> nums_at h' a = Some cells) ras'
                (mat0 @ map (\<lambda>i. map (cell i) [0..<length chs]) idx)"
proof (induction idx arbitrary: h ras mat0)
  case Nil
  then show ?case by auto
next
  case (Cons i idx)
  note pres = Cons.prems(1)
  have i: "i < length rhs" using Cons.prems(4) by simp
  let ?row = "length h"
  let ?h1 = "h @ [Arr []]"
  have p1: "preserved hb ?h1" using pres preserved_append by (rule preserved_trans)
  from strs_at_arr [OF strs_at_preserved [OF p1 cha]] obtain chv where
    chv: "arr_at ?h1 cha = Some chv" "length chv = length chs" by blast
  have row: "length hb \<le> ?row" using pres by (rule preserved_length)
  have all_j: "\<forall>j \<in> set [0..<length chs]. j < length chs" by simp
  from inner_loop_ok [OF da recs ra ca va rha cha i row p1 arr_at_alloc all_j, of ops agg]
  obtain h2 where l: "inner_loop ops ?h1 da ra ca va (Prim (Str agg)) rha cha ?row i [0..<length chs] = Some h2"
    and p2: "preserved hb h2" and len2: "length ?h1 \<le> length h2"
    and fr2: "\<forall>a < length ?h1. a \<noteq> ?row \<longrightarrow> h2 ! a = ?h1 ! a"
    and c2: "arr_at h2 ?row = Some ([] @ map (\<lambda>j. Prim (Num (cell i j))) [0..<length chs])"
    unfolding cell_def by blast
  have pd_lt: "pd < length h" using Cons.prems(2) by (rule arr_at_length)
  have same: "h2 ! a = h ! a" if "a < length h" for a
    using fr2 that by (simp add: nth_append)
  have pd2: "arr_at h2 pd = Some (map Ref ras)"
    using arr_at_same [of pd h h2] pd_lt len2 same [OF pd_lt] Cons.prems(2) by simp
  let ?h3 = "h2[pd := Arr (map Ref ras @ [Ref ?row])]"
  have p3: "preserved hb ?h3" using p2 pd by (rule preserved_update)
  have pd3: "arr_at ?h3 pd = Some (map Ref (ras @ [?row]))"
    using pd_lt len2 by (simp add: arr_at_update)
  have old: "list_all2 (\<lambda>a cells. a \<noteq> pd \<and> nums_at ?h3 a = Some cells) ras mat0"
  proof (rule list_all2_mono [OF Cons.prems(3)])
    fix a cells assume ac: "a \<noteq> pd \<and> nums_at h a = Some cells"
    then have a_lt: "a < length h" by (auto dest: nums_at_length)
    then have "?h3 ! a = h ! a" using ac same by simp
    then have "nums_at ?h3 a = nums_at h a"
      using a_lt len2 by (intro nums_at_same) simp_all
    with ac show "a \<noteq> pd \<and> nums_at ?h3 a = Some cells" by simp
  qed
  have row3: "arr_at ?h3 ?row = Some (map (\<lambda>n. Prim (Num n)) (map (cell i) [0..<length chs]))"
  proof -
    have "arr_at ?h3 ?row = arr_at h2 ?row"
      using pd_lt len2 by (intro arr_at_same) simp_all
    then show ?thesis using c2 by (simp add: comp_def)
  qed
  have new: "list_all2 (\<lambda>a cells. a \<noteq> pd \<and> nums_at ?h3 a = Some cells) [?row] [map (cell i) [0..<length chs]]"
    using pd_lt nums_at_numbers [OF row3] by simp
  have inv: "list_all2 (\<lambda>a cells. a \<noteq> pd \<and> nums_at ?h3 a = Some cells) (ras @ [?row])
               (mat0 @ [map (cell i) [0..<length chs]])"
    using old new by (rule list_all2_appendI)
  have idx: "\<forall>i \<in> set idx. i < length rhs" using Cons.prems(4) by simp
  from Cons.IH [OF p3 pd3 inv idx] obtain h' ras' where
    "outer_loop ops ?h3 da ra ca va (Prim (Str agg)) rha cha pd idx = Some h'" "preserved hb h'"
    "arr_at h' pd = Some (map Ref ras')"
    "list_all2 (\<lambda>a cells. a \<noteq> pd \<and> nums_at h' a = Some cells) ras'
       ((mat0 @ [map (cell i) [0..<length chs]]) @ map (\<lambda>i. map (cell i) [0..<length chs]) idx)"
    by blast
  moreover have "outer_loop ops h da ra ca va (Prim (Str agg)) rha cha pd (i # idx) =
        outer_loop ops ?h3 da ra ca va (Prim (Str agg)) rha cha pd idx"
    using chv l pd2 by (simp add: alloc_def)
  ultimately show ?case by auto
qed

lemma obj_at_alloc: "obj_at (h @ [Obj m]) (length h) = Some m"
  by (simp add: obj_at_def deref_def)

lemma the_ref_Some: "the_ref v = Some a \<longleftrightarrow> v = Ref a"
  by (cases v) (simp_all add: the_ref_def)

lemma read_config_parts:
  assumes "read_config h cfa = Some cfg"
  shows "\<exists>config ra ca va.
           obj_at h cfa = Some config \<and>
           config (js ''rows'') = Some (Ref ra) \<and> strs_at h ra = Some (rows cfg) \<and>
           config (js ''columns'') = Some (Ref ca) \<and> strs_at h ca = Some (columns cfg) \<and>
           config (js ''values'') = Some (Ref va) \<and> strs_at h va = Some (values' cfg) \<and>
           (case config (js ''aggregation'') of
              None \<Rightarrow> Some None
            | Some (Prim Undefined) \<Rightarrow> Some None
            | Some (Prim (Str a)) \<Rightarrow> Some (Some a)
            | _ \<Rightarrow> None) = Some (aggregation cfg)"
  using assms unfolding read_config_def
  by (auto simp: the_ref_Some split: Option.bind_splits)

lemma aggregation_default:
  assumes "(case ob k of
              None \<Rightarrow> Some None
            | Some (Prim Undefined) \<Rightarrow> Some None
            | Some (Prim (Str a)) \<Rightarrow> Some (Some a)
            | _ \<Rightarrow> None) = Some ao"
  shows "(if get_prop ob k = Prim Undefined then Prim (Str (js ''sum'')) else get_prop ob k) =
         Prim (Str (case ao of None \<Rightarrow> js ''sum'' | Some a \<Rightarrow> a))"
  using assms by (auto simp: get_prop_def split: option.splits hval.splits jsval.splits)

lemma read_config_preserved:
  assumes "preserved h h'" and "read_config h cfa = Some cfg"
  shows "read_config h' cfa = Some cfg"
proof -
  from read_config_parts [OF assms(2)] obtain config ra ca va where
    "obj_at h cfa = Some config"
    "config (js ''rows'') = Some (Ref ra)" "strs_at h ra = Some (rows cfg)"
    "config (js ''columns'') = Some (Ref ca)" "strs_at h ca = Some (columns cfg)"
    "config (js ''values'') = Some (Ref va)" "strs_at h va = Some (values' cfg)"
    "(case config (js ''aggregation'') of
              None \<Rightarrow> Some None
            | Some (Prim Undefined) \<Rightarrow> Some None
            | Some (Prim (Str a)) \<Rightarrow> Some (Some a)
            | _ \<Rightarrow> None) = Some (aggregation cfg)"
    by blast
  then show ?thesis
    using obj_at_preserved [OF assms(1)] strs_at_preserved [OF assms(1)]
    by (simp add: read_config_def the_ref_def)
qed

lemma read_records_preserved:
  assumes "preserved h h'" and "read_records h da = Some recs"
  shows "read_records h' da = Some recs"
  using assms by (auto simp: read_records_iff dest: arr_at_preserved recs_at_preserved)

lemma rows_readable:
  "list_all2 (\<lambda>a cells. a \<noteq> pd \<and> nums_at h a = Some cells) ras mat \<Longrightarrow>
   read_rows h (map Ref ras) = Some mat"
  unfolding read_rows_def those_map_Some list_all2_map1
  by (erule list_all2_mono) (simp add: the_ref_def)

lemma createPivotTable_h_ok:
  assumes rr: "read_records h da = Some recs" and rc: "read_config h cfa = Some cfg"
  shows "\<exists>res h'. createPivotTable_h ops h da cfa = Some (res, h') \<and> preserved h h' \<and>
           read_result h' res = Some (createPivotTable ops recs cfg)"
proof -
  from rr obtain items where items: "arr_at h da = Some items" and recs: "recs_at h items recs"
    by (auto simp: read_records_iff)
  from read_config_parts [OF rc] obtain config ra ca va where
    config: "obj_at h cfa = Some config"
    and ra: "config (js ''rows'') = Some (Ref ra)" "strs_at h ra = Some (rows cfg)"
    and ca: "config (js ''columns'') = Some (Ref ca)" "strs_at h ca = Some (columns cfg)"
    and va: "config (js ''values'') = Some (Ref va)" "strs_at h va = Some (values' cfg)"
    and agg0: "(case config (js ''aggregation'') of
              None \<Rightarrow> Some None
            | Some (Prim Undefined) \<Rightarrow> Some None
            | Some (Prim (Str a)) \<Rightarrow> Some (Some a)
            | _ \<Rightarrow> None) = Some (aggregation cfg)"
    by blast
  note agg = aggregation_default [of config "js ''aggregation''", OF agg0]
  have gp: "get_prop config (js ''rows'') = Ref ra" "get_prop config (js ''columns'') = Ref ca"
    "get_prop config (js ''values'') = Ref va"
    using ra(1) ca(1) va(1) by (simp_all add: get_prop_def)
  define ag where "ag = (case aggregation cfg of None \<Rightarrow> js ''sum'' | Some a \<Rightarrow> a)"
  show ?thesis
  proof (cases "items = []")
    case True
    then have "recs = []" using recs by (simp add: recs_at_Nil)
    let ?h' = "h @ [Arr [], Arr [], Arr [],
                   result_object (length h) (Suc (length h)) (Suc (Suc (length h)))]"
    have run: "createPivotTable_h ops h da cfa = Some (Suc (Suc (Suc (length h))), ?h')"
      using True by (simp add: createPivotTable_h_def config items alloc_def Let_def)
    have "read_result ?h' (Suc (Suc (Suc (length h)))) =
            Some \<lparr>data = [], rowHeaders = [], columnHeaders = []\<rparr>"
      by (simp add: read_result_def read_rows_def obj_at_def arr_at_def strs_at_def deref_def nth_append
            result_object_def the_ref_def js_def)
    then show ?thesis
      using run \<open>recs = []\<close> by (simp add: createPivotTable_def preserved_append)
  next
    case False
    let ?rhs = "getUniqueValues ops recs (rows cfg)" and ?chs = "getUniqueValues ops recs (columns cfg)"
    from getUniqueValues_h_ok [OF items recs ra(2), of ops] obtain rha h1 where
      g1: "getUniqueValues_h ops h da ra = Some (rha, h1)" and p1: "preserved h h1"
      and rha1: "strs_at h1 rha = Some ?rhs"
      by blast
    from getUniqueValues_h_ok [OF arr_at_preserved [OF p1 items] recs_at_preserved [OF p1 recs]
        strs_at_preserved [OF p1 ca(2)], of ops]
    obtain cha h2 where
      g2: "getUniqueValues_h ops h1 da ca = Some (cha, h2)" and p12: "preserved h1 h2"
      and cha2: "strs_at h2 cha = Some ?chs"
      by blast
    have p2: "preserved h h2" using p1 p12 by (rule preserved_trans)
    note in2 = arr_at_preserved [OF p2 items] recs_at_preserved [OF p2 recs]
      strs_at_preserved [OF p2 ra(2)] strs_at_preserved [OF p2 ca(2)] strs_at_preserved [OF p2 va(2)]
      strs_at_preserved [OF p12 rha1] cha2
    let ?pd = "length h2"
    let ?h3 = "h2 @ [Arr []]"
    have p23: "preserved h2 ?h3" by (rule preserved_append)
    from strs_at_arr [OF strs_at_preserved [OF p23 in2(6)]] obtain rhv where
      rhv: "arr_at ?h3 rha = Some rhv" "length rhv = length ?rhs" by blast
    have pd3: "arr_at ?h3 ?pd = Some (map Ref [])" by (simp add: arr_at_alloc)
    have all_i: "\<forall>i \<in> set [0..<length ?rhs]. i < length ?rhs" by simp
    from outer_loop_ok [OF in2 order_refl p23 pd3 _ all_i, of "[]" ops ag]
    obtain h4 ras where
      l: "outer_loop ops ?h3 da ra ca va (Prim (Str ag)) rha cha ?pd [0..<length ?rhs] = Some h4"
      and p24: "preserved h2 h4"
      and pd4: "arr_at h4 ?pd = Some (map Ref ras)"
      and mat: "list_all2 (\<lambda>a cells. a \<noteq> ?pd \<and> nums_at h4 a = Some cells) ras
          ([] @ map (\<lambda>i. map (\<lambda>j. aggregateValues ops
              (filter (\<lambda>item. matchesGroup ops item (rows cfg) (?rhs ! i) \<and>
                               matchesGroup ops item (columns cfg) (?chs ! j)) recs)
              (values' cfg) ag) [0..<length ?chs]) [0..<length ?rhs])"
      by auto
    let ?h5 = "h4 @ [result_object ?pd rha cha]"
    have p45: "preserved h4 ?h5" by (rule preserved_append)
    have run: "createPivotTable_h ops h da cfa = Some (length h4, ?h5)"
      using False
      by (simp add: createPivotTable_h_def config gp agg items g1 g2 alloc_def rhv l
            the_ref_def Let_def ag_def [symmetric])
    have pres: "preserved h ?h5"
      using preserved_trans [OF p2 p24] p45 by (rule preserved_trans)
    define mat where "mat = map (\<lambda>i. map (\<lambda>j. aggregateValues ops
              (filter (\<lambda>item. matchesGroup ops item (rows cfg) (?rhs ! i) \<and>
                               matchesGroup ops item (columns cfg) (?chs ! j)) recs)
              (values' cfg) ag) [0..<length ?chs]) [0..<length ?rhs]"
    have mat5: "list_all2 (\<lambda>a cells. a \<noteq> ?pd \<and> nums_at ?h5 a = Some cells) ras mat"
      using mat unfolding mat_def by (auto elim!: list_all2_mono dest: nums_at_preserved [OF p45])
    have ob: "obj_at ?h5 (length h4) =
        Some [js ''data'' \<mapsto> Ref ?pd, js ''rowHeaders'' \<mapsto> Ref rha, js ''columnHeaders'' \<mapsto> Ref cha]"
      unfolding result_object_def by (rule obj_at_alloc)
    have names: "js ''data'' \<noteq> js ''rowHeaders''" "js ''data'' \<noteq> js ''columnHeaders''"
      "js ''rowHeaders'' \<noteq> js ''columnHeaders''"
      by (simp_all add: js_def)
    have "recs \<noteq> []" using False recs_at_length [OF recs] by auto
    then have pure: "createPivotTable ops recs cfg = \<lparr>data = mat, rowHeaders = ?rhs, columnHeaders = ?chs\<rparr>"
      by (simp add: createPivotTable_def ag_def mat_def Let_def)
    have "read_result ?h5 (length h4) = Some \<lparr>data = mat, rowHeaders = ?rhs, columnHeaders = ?chs\<rparr>"
      using names
      by (simp add: read_result_def ob the_ref_def
            arr_at_preserved [OF p45 pd4] rows_readable [OF mat5]
            strs_at_preserved [OF preserved_trans [OF p24 p45] in2(6)]
            strs_at_preserved [OF preserved_trans [OF p24 p45] in2(7)])
    then have "read_result ?h5 (length h4) = Some (createPivotTable ops recs cfg)"
      by (simp only: pure)
    with run pres show ?thesis by blast
  qed
qed

lemma example_heap_records: "read_records example_heap 3 = Some example_records"
  by (simp add: read_records_def arr_at_def rec_at_def deref_def the_ref_def example_heap_def
        example_records_def)

lemma example_heap_config: "read_config example_heap 7 = Some (example_config (Some (js ''avg'')))"
  by code_simp

section \<open>The properties\<close>

text \<open>
  C1 (as amended). For a runtime whose Numbers are ordered as IEEE 754 orders them, a
  configuration with at least one value field and any of the five aggregation kinds (or
  none, which means the sum), every cell \<open>data ! i ! j\<close> of \<open>createPivotTable\<close> is \<^verbatim>\<open>0\<close> when
  no record has row key \<open>rowHeaders ! i\<close> and column key \<open>columnHeaders ! j\<close>, and is
  otherwise the reduction of the value list of the records that have: the value list takes
  those records in input order and every value field of each, coerced to a number with
  \<^verbatim>\<open>0\<close> for what does not parse; sum is the left-to-right sum, count the length, avg the
  sum divided by the count, min and max a minimum and a maximum of the list.
\<close>

theorem cell_is_reduction:
  assumes "number_order ops"
    and "i < length (rowHeaders (createPivotTable ops dat config))"
    and "j < length (columnHeaders (createPivotTable ops dat config))"
    and "values' config \<noteq> []"
    and "configured_kind config k"
  shows "(let sub = cell_records ops dat config (rowHeaders (createPivotTable ops dat config) ! i)
                      (columnHeaders (createPivotTable ops dat config) ! j);
              cell = data (createPivotTable ops dat config) ! i ! j
          in if sub = [] then cell = num_of_nat ops 0
             else reduces_to ops k (value_list ops sub (values' config)) cell)"
proof -
  let ?sub = "cell_records ops dat config (rowHeaders (createPivotTable ops dat config) ! i)
                      (columnHeaders (createPivotTable ops dat config) ! j)"
  have cell: "data (createPivotTable ops dat config) ! i ! j =
              aggregateValues ops ?sub (values' config) (kind_name k)"
    using assms(2,3,5) by (simp add: cell_eq effective_kind)
  show ?thesis
  proof (cases "?sub = []")
    case True
    then show ?thesis by (simp add: cell aggregateValues_def)
  next
    case False
    then show ?thesis
      using aggregate_reduces [OF assms(1) False assms(4), of k] by (simp add: cell)
  qed
qed

theorem cell_is_reduction_witness:
  "reduces_to js_ops Avg [Fin 10] (Fin 10) \<and>
   value_list js_ops
     (cell_records js_ops example_records (example_config (Some (js ''avg''))) (js ''A'') (js ''X''))
     [js ''b''] = [Fin 10] \<and>
   data (createPivotTable js_ops example_records (example_config (Some (js ''avg'')))) ! 0 ! 0 = Fin 10 \<and>
   data (createPivotTable js_ops example_records (example_config (Some (js ''avg'')))) ! 1 ! 1 = num_of_nat js_ops 0"
proof -
  let ?cfg = "example_config (Some (js ''avg''))"
  let ?r = "createPivotTable js_ops example_records ?cfg"
  have i: "0 < length (rowHeaders ?r)" "1 < length (rowHeaders ?r)"
    and j: "0 < length (columnHeaders ?r)" "1 < length (columnHeaders ?r)"
    by (simp_all add: example_avg)
  have vf: "values' ?cfg \<noteq> []" by (simp add: example_config_def)
  have ck: "configured_kind ?cfg Avg"
    by (simp add: configured_kind_def example_config_def)
  have vl: "value_list js_ops (cell_records js_ops example_records ?cfg (js ''A'') (js ''X'')) [js ''b''] = [Fin 10]"
    by code_simp
  have l00: "length (cell_records js_ops example_records ?cfg (js ''A'') (js ''X'')) = 1"
    and l11: "length (cell_records js_ops example_records ?cfg (js ''B'') (js ''Y'')) = 0"
    by code_simp+
  have ne: "cell_records js_ops example_records ?cfg (js ''A'') (js ''X'') \<noteq> []"
    using l00 by auto
  have em: "cell_records js_ops example_records ?cfg (js ''B'') (js ''Y'') = []"
    using l11 by simp
  have vals: "values' ?cfg = [js ''b'']" by (simp add: example_config_def)
  from cell_is_reduction [OF js_ops_order i(1) j(1) vf ck]
       cell_is_reduction [OF js_ops_order i(2) j(2) vf ck]
  show ?thesis
    using ne em vl by (simp add: example_avg Let_def vals)
qed

text \<open>
  C1 as stated fails at a cell that no record falls in: under the average the claimed
  value is \<^verbatim>\<open>0 / 0\<close>, which is \<^verbatim>\<open>NaN\<close>, and the cell is \<^verbatim>\<open>0\<close>. The records are those of
  the first example; the cell is row \<^verbatim>\<open>"B"\<close>, column \<^verbatim>\<open>"Y"\<close>.
\<close>

theorem empty_cell_average_counterexample:
  "number_order js_ops \<and>
   values' (example_config (Some (js ''avg''))) \<noteq> [] \<and>
   rows (example_config (Some (js ''avg''))) \<noteq> [] \<and>
   columns (example_config (Some (js ''avg''))) \<noteq> [] \<and>
   configured_kind (example_config (Some (js ''avg''))) Avg \<and>
   length example_records = 3 \<and>
   1 < length (rowHeaders (createPivotTable js_ops example_records (example_config (Some (js ''avg''))))) \<and>
   1 < length (columnHeaders (createPivotTable js_ops example_records (example_config (Some (js ''avg''))))) \<and>
   data (createPivotTable js_ops example_records (example_config (Some (js ''avg'')))) ! 1 ! 1 = Fin 0 \<and>
   \<not> reduces_to js_ops Avg
       (value_list js_ops
          (cell_records js_ops example_records (example_config (Some (js ''avg'')))
             (rowHeaders (createPivotTable js_ops example_records (example_config (Some (js ''avg'')))) ! 1)
             (columnHeaders (createPivotTable js_ops example_records (example_config (Some (js ''avg'')))) ! 1))
          (values' (example_config (Some (js ''avg'')))))
       (data (createPivotTable js_ops example_records (example_config (Some (js ''avg'')))) ! 1 ! 1)"
proof -
  have vl: "value_list js_ops (cell_records js_ops example_records (example_config (Some (js ''avg''))) (js ''B'') (js ''Y'')) [js ''b''] = []"
    by code_simp
  have nr: "\<not> reduces_to js_ops Avg [] (Fin 0)"
    by (simp add: js_ops_def js_div_def is_zero_def is_inf_def)
  have cfg: "values' (example_config a) = [js ''b'']" "rows (example_config a) = [js ''s'']"
     "columns (example_config a) = [js ''o'']" for a
    by (simp_all add: example_config_def)
  have ck: "configured_kind (example_config (Some (js ''avg''))) Avg"
    by (simp add: configured_kind_def example_config_def)
  have len: "length example_records = 3" by (simp add: example_records_def)
  show ?thesis
    using js_ops_order ck len nr by (simp add: example_avg cfg vl)
qed

text \<open>
  C2. For every record list, every configuration and every index pair of the result: if
  no record has both row key \<open>rowHeaders ! i\<close> and column key \<open>columnHeaders ! j\<close>, the
  cell is exactly \<^verbatim>\<open>0\<close>, whatever the aggregation.
\<close>

theorem empty_cell_is_zero:
  assumes "i < length (rowHeaders (createPivotTable ops dat config))"
    and "j < length (columnHeaders (createPivotTable ops dat config))"
    and "\<forall>item \<in> set dat.
           \<not> (group_key ops item (rows config) = rowHeaders (createPivotTable ops dat config) ! i \<and>
              group_key ops item (columns config) = columnHeaders (createPivotTable ops dat config) ! j)"
  shows "data (createPivotTable ops dat config) ! i ! j = num_of_nat ops 0"
proof -
  have "cell_records ops dat config (rowHeaders (createPivotTable ops dat config) ! i)
          (columnHeaders (createPivotTable ops dat config) ! j) = []"
    using assms(3) by (auto simp: cell_records_def filter_empty_conv)
  then show ?thesis
    using assms(1,2) by (simp add: cell_eq aggregateValues_def)
qed

theorem empty_cell_is_zero_witness:
  "length (cell_records js_ops example_records (example_config (Some (js ''avg''))) (js ''B'') (js ''Y'')) = 0 \<and>
   data (createPivotTable js_ops example_records (example_config (Some (js ''avg'')))) ! 1 ! 1 = Fin 0"
proof -
  let ?cfg = "example_config (Some (js ''avg''))"
  let ?r = "createPivotTable js_ops example_records ?cfg"
  have i: "1 < length (rowHeaders ?r)" and j: "1 < length (columnHeaders ?r)"
    by (simp_all add: example_avg)
  have none: "\<forall>item \<in> set example_records.
     \<not> (group_key js_ops item (rows ?cfg) = rowHeaders ?r ! 1 \<and>
        group_key js_ops item (columns ?cfg) = columnHeaders ?r ! 1)"
    using example_empty_cell by (simp add: example_avg) (simp add: example_config_def)
  have "data ?r ! 1 ! 1 = num_of_nat js_ops 0"
    by (rule empty_cell_is_zero [OF i j none])
  then show ?thesis
    by (simp add: example_empty_cell_records) (simp add: js_ops_def)
qed

text \<open>
  C3. The row headers and the column headers are each strictly ascending in the
  lexicographic order of strings, and hold no element twice.
\<close>

theorem headers_strictly_sorted:
  "sorted_wrt (<) (rowHeaders (createPivotTable ops dat config)) \<and>
   distinct (rowHeaders (createPivotTable ops dat config)) \<and>
   sorted_wrt (<) (columnHeaders (createPivotTable ops dat config)) \<and>
   distinct (columnHeaders (createPivotTable ops dat config))"
  by (cases "dat = []")
     (simp_all add: headers_empty rowHeaders_eq columnHeaders_eq getUniqueValues_sorted getUniqueValues_distinct)

text \<open>
  C4. The result is rectangular: the matrix has as many rows as there are row headers,
  and every row has as many entries as there are column headers.
\<close>

theorem result_rectangular:
  "length (data (createPivotTable ops dat config)) = length (rowHeaders (createPivotTable ops dat config)) \<and>
   (\<forall>row \<in> set (data (createPivotTable ops dat config)).
      length row = length (columnHeaders (createPivotTable ops dat config)))"
  by (cases "dat = []") (auto simp: headers_empty rowHeaders_eq columnHeaders_eq data_eq)

theorem result_rectangular_witness:
  "length (data (createPivotTable js_ops example_records (example_config None))) = 2 \<and>
   length (rowHeaders (createPivotTable js_ops example_records (example_config None))) = 2 \<and>
   map length (data (createPivotTable js_ops example_records (example_config None))) = [2, 2] \<and>
   length (columnHeaders (createPivotTable js_ops example_records (example_config None))) = 2"
  using result_rectangular [of js_ops example_records "example_config None"]
  by (simp add: example_none)

text \<open>
  C5. On the empty record list the result has an empty matrix and no headers, whatever
  the configuration.
\<close>

theorem empty_records_empty_result:
  "createPivotTable ops [] config = \<lparr>data = [], rowHeaders = [], columnHeaders = []\<rparr>"
  by (simp add: createPivotTable_def)




text \<open>
  C7. Under the aggregation \<^verbatim>\<open>count\<close> the cells are the Numbers of natural numbers
  whose total over the whole matrix is the number of records times the number of value
  fields. It holds for every field list, empty ones included.
\<close>

theorem count_cells_total:
  assumes "aggregation config = Some (js ''count'')"
  shows "\<exists>M. data (createPivotTable ops dat config) = map (map (num_of_nat ops)) M \<and>
             sum_list (map sum_list M) = length dat * length (values' config)"
proof (cases "dat = []")
  case True
  then have "data (createPivotTable ops dat config) = map (map (num_of_nat ops)) []"
    by (simp add: headers_empty)
  then show ?thesis using True by (intro exI [of _ "[]"]) simp
next
  case False
  let ?rh = "getUniqueValues ops dat (rows config)" and ?ch = "getUniqueValues ops dat (columns config)"
  let ?k = "length (values' config)"
  let ?M = "map (\<lambda>rk. map (\<lambda>ck. length (cell_records ops dat config rk ck) * ?k) ?ch) ?rh"
  have agg: "effective_aggregation config = js ''count''"
    using assms by (simp add: effective_aggregation_def)
  have "data (createPivotTable ops dat config) = map (map (num_of_nat ops)) ?M"
    using False by (simp add: data_eq agg aggregate_count comp_def)
  moreover have "sum_list (map sum_list ?M) = length dat * ?k"
  proof -
    have "sum_list (map sum_list ?M) =
          (\<Sum>rk\<leftarrow>?rh. (\<Sum>ck\<leftarrow>?ch. length (cell_records ops dat config rk ck)) * ?k)"
      by (simp add: comp_def sum_list_mult_const)
    also have "\<dots> = (\<Sum>rk\<leftarrow>?rh. \<Sum>ck\<leftarrow>?ch. length (cell_records ops dat config rk ck)) * ?k"
      by (simp add: sum_list_mult_const)
    finally show ?thesis by (simp add: cells_partition)
  qed
  ultimately show ?thesis by blast
qed

theorem count_cells_total_witness:
  "\<exists>M. data (createPivotTable js_ops example_records (example_config (Some (js ''count'')))) =
          map (map (num_of_nat js_ops)) M \<and> sum_list (map sum_list M) = 3"
proof -
  have n: "length example_records * length (values' (example_config (Some (js ''count'')))) = 3"
    by (simp add: example_config_def example_records_def)
  have a: "aggregation (example_config (Some (js ''count''))) = Some (js ''count'')"
    by (simp add: example_config_def)
  from count_cells_total [OF a, of js_ops example_records] show ?thesis
    unfolding n .
qed

text \<open>
  C8. On the store, for two calls whose record lists read as equal and whose
  configurations read as equal (in one store or in two): both calls return, the two
  results read as the same matrix and headers, which are those of the functional model,
  and each call leaves every object that existed before it unchanged, so that the record
  list and the configuration read afterwards as they did before.
\<close>

theorem createPivotTable_leaves_inputs_and_repeats:
  assumes "read_records h1 da1 = Some recs" and "read_config h1 ca1 = Some cfg"
    and "read_records h2 da2 = Some recs" and "read_config h2 ca2 = Some cfg"
  shows "\<exists>r1 h1' r2 h2'.
           createPivotTable_h ops h1 da1 ca1 = Some (r1, h1') \<and>
           createPivotTable_h ops h2 da2 ca2 = Some (r2, h2') \<and>
           read_result h1' r1 = Some (createPivotTable ops recs cfg) \<and>
           read_result h2' r2 = read_result h1' r1 \<and>
           preserved h1 h1' \<and> preserved h2 h2' \<and>
           read_records h1' da1 = Some recs \<and> read_config h1' ca1 = Some cfg \<and>
           read_records h2' da2 = Some recs \<and> read_config h2' ca2 = Some cfg"
proof -
  from createPivotTable_h_ok [OF assms(1,2), of ops] obtain r1 h1' where
    a: "createPivotTable_h ops h1 da1 ca1 = Some (r1, h1')" "preserved h1 h1'"
       "read_result h1' r1 = Some (createPivotTable ops recs cfg)"
    by blast
  from createPivotTable_h_ok [OF assms(3,4), of ops] obtain r2 h2' where
    b: "createPivotTable_h ops h2 da2 ca2 = Some (r2, h2')" "preserved h2 h2'"
       "read_result h2' r2 = Some (createPivotTable ops recs cfg)"
    by blast
  show ?thesis
    using a b read_records_preserved [OF a(2) assms(1)] read_config_preserved [OF a(2) assms(2)]
      read_records_preserved [OF b(2) assms(3)] read_config_preserved [OF b(2) assms(4)]
    by simp
qed

theorem createPivotTable_leaves_inputs_and_repeats_witness:
  "\<exists>r1 h1 r2 h2.
     createPivotTable_h js_ops example_heap 3 7 = Some (r1, h1) \<and>
     createPivotTable_h js_ops h1 3 7 = Some (r2, h2) \<and>
     read_result h1 r1 =
       Some \<lparr>data = [[Fin 10, Fin 20], [Fin 5, Fin 0]], rowHeaders = [js ''A'', js ''B''],
             columnHeaders = [js ''X'', js ''Y'']\<rparr> \<and>
     read_result h2 r2 = read_result h1 r1 \<and>
     take 8 h1 = example_heap \<and> take 8 h2 = example_heap"
proof -
  let ?cfg = "example_config (Some (js ''avg''))"
  note rr = example_heap_records and rc = example_heap_config
  from createPivotTable_leaves_inputs_and_repeats [OF rr rc rr rc, of js_ops]
  obtain r1 h1 where a: "createPivotTable_h js_ops example_heap 3 7 = Some (r1, h1)"
    "read_result h1 r1 = Some (createPivotTable js_ops example_records ?cfg)"
    "preserved example_heap h1"
    "read_records h1 3 = Some example_records" "read_config h1 7 = Some ?cfg"
    by auto
  from createPivotTable_leaves_inputs_and_repeats [OF a(4,5) a(4,5), of js_ops]
  obtain r2 h2 where b: "createPivotTable_h js_ops h1 3 7 = Some (r2, h2)"
    "read_result h2 r2 = Some (createPivotTable js_ops example_records ?cfg)"
    "preserved h1 h2"
    by auto
  have len: "length example_heap = 8" by (simp add: example_heap_def)
  have t1: "take 8 h1 = example_heap" using a(3) by (simp add: preserved_def len)
  have t2: "take 8 h2 = example_heap"
    using preserved_trans [OF a(3) b(3)] by (simp add: preserved_def len)
  show ?thesis
    using a(1,2) b(1,2) t1 t2 by (simp add: example_avg)
qed

text \<open>
  C9. An aggregation string that is none of \<^verbatim>\<open>sum\<close>, \<^verbatim>\<open>count\<close>, \<^verbatim>\<open>avg\<close>, \<^verbatim>\<open>min\<close>, \<^verbatim>\<open>max\<close>
  gives exactly the result of \<^verbatim>\<open>sum\<close>.
\<close>

theorem unknown_aggregation_is_sum:
  assumes "a \<notin> {js ''sum'', js ''count'', js ''avg'', js ''min'', js ''max''}"
  shows "createPivotTable ops dat (config\<lparr>aggregation := Some a\<rparr>) =
         createPivotTable ops dat (config\<lparr>aggregation := Some (js ''sum'')\<rparr>)"
proof -
  have "aggregateValues ops d vf a = aggregateValues ops d vf (js ''sum'')" for d vf
    using assms by (simp add: aggregateValues_def Let_def)
  then show ?thesis
    by (simp add: createPivotTable_def Let_def)
qed

theorem unknown_aggregation_is_sum_witness:
  "js ''median'' \<notin> {js ''sum'', js ''count'', js ''avg'', js ''min'', js ''max''} \<and>
   createPivotTable js_ops example_records (example_config (Some (js ''median''))) =
     \<lparr>data = [[Fin 10, Fin 20], [Fin 5, Fin 0]], rowHeaders = [js ''A'', js ''B''],
      columnHeaders = [js ''X'', js ''Y'']\<rparr>"
proof -
  have a: "js ''median'' \<notin> {js ''sum'', js ''count'', js ''avg'', js ''min'', js ''max''}"
    by (simp add: js_def)
  have c: "(example_config None)\<lparr>aggregation := Some x\<rparr> = example_config (Some x)" for x
    by (simp add: example_config_def)
  from unknown_aggregation_is_sum [OF a, of js_ops example_records "example_config None"]
  show ?thesis using a by (simp add: c example_sum)
qed

text \<open>
  C10. On a non-empty record list, no row fields give the single row header \<^verbatim>\<open>""\<close> and
  one matrix row, whose entry for a column header aggregates all records of that column
  group; no column fields give the single column header \<^verbatim>\<open>""\<close> and one entry per row,
  aggregating all records of that row group.
\<close>

theorem empty_axis_single_group:
  assumes "dat \<noteq> []"
  shows "(rows config = [] \<longrightarrow>
            rowHeaders (createPivotTable ops dat config) = [[]] \<and>
            data (createPivotTable ops dat config) =
              [map (\<lambda>ck. aggregateValues ops
                            (filter (\<lambda>item. group_key ops item (columns config) = ck) dat)
                            (values' config) (effective_aggregation config))
                 (columnHeaders (createPivotTable ops dat config))]) \<and>
         (columns config = [] \<longrightarrow>
            columnHeaders (createPivotTable ops dat config) = [[]] \<and>
            data (createPivotTable ops dat config) =
              map (\<lambda>rk. [aggregateValues ops
                            (filter (\<lambda>item. group_key ops item (rows config) = rk) dat)
                            (values' config) (effective_aggregation config)])
                (rowHeaders (createPivotTable ops dat config)))"
  using assms
  by (simp add: rowHeaders_eq columnHeaders_eq data_eq getUniqueValues_no_fields
        cell_records_def group_key_no_fields)

theorem empty_axis_single_group_witness:
  "rowHeaders (createPivotTable js_ops example_records ((example_config None)\<lparr>rows := []\<rparr>)) = [js ''''] \<and>
   data (createPivotTable js_ops example_records ((example_config None)\<lparr>rows := []\<rparr>)) = [[Fin 15, Fin 20]] \<and>
   columnHeaders (createPivotTable js_ops example_records ((example_config None)\<lparr>columns := []\<rparr>)) = [js ''''] \<and>
   data (createPivotTable js_ops example_records ((example_config None)\<lparr>columns := []\<rparr>)) = [[Fin 30], [Fin 5]]"
proof -
  have ne: "example_records \<noteq> []" by (simp add: example_records_def)
  have r: "rows ((example_config None)\<lparr>rows := []\<rparr>) = []"
    and c: "columns ((example_config None)\<lparr>columns := []\<rparr>) = []"
    by simp_all
  have d1: "data (createPivotTable js_ops example_records ((example_config None)\<lparr>rows := []\<rparr>)) = [[Fin 15, Fin 20]]"
    by code_simp
  have d2: "data (createPivotTable js_ops example_records ((example_config None)\<lparr>columns := []\<rparr>)) = [[Fin 30], [Fin 5]]"
    by code_simp
  from empty_axis_single_group [OF ne, of "(example_config None)\<lparr>rows := []\<rparr>" js_ops]
       empty_axis_single_group [OF ne, of "(example_config None)\<lparr>columns := []\<rparr>" js_ops]
  show ?thesis using r c d1 d2 by (simp add: js_def)
qed

end
